theory Spec2Isabelle
  imports Main "HOL-Library.Char_ord" "HOL-Library.List_Lexorder" "HOL-Library.Sublist"
begin

section \<open>Manifests and the diff engine (pkg/pack/entry.go, pkg/pack/diff.go)\<close>

text \<open>
  Go strings are byte sequences compared bytewise; \<^typ>\<open>string\<close> with the order of
  \<open>HOL-Library.Char_ord\<close> lifted lexicographically by \<open>HOL-Library.List_Lexorder\<close>
  is that order.
\<close>

record ManifestEntry =
  Path :: string
  Hash :: string
  Mode :: int
  Size :: int

text \<open>
  A \<open>Manifest\<close> is a Go map from path to entry. The only thing \<open>ComputeDiff\<close> does with
  a map besides looking keys up is to range over it, and the order of a range loop is
  chosen by the runtime. A manifest is therefore given as the list of its key/value pairs
  in the order in which the range loop of this call visits them: keys are unique
  (\<open>is_manifest\<close>), look-up is \<^const>\<open>map_of\<close>, and two lists with the same
  \<^const>\<open>map_of\<close> are the same Go map visited in two different orders.
\<close>

type_synonym Manifest = "(string \<times> ManifestEntry) list"

definition is_manifest :: "Manifest \<Rightarrow> bool" where
  "is_manifest m \<longleftrightarrow> distinct (map fst m)"

record DiffResult =
  Uploads :: "string list"
  Deletes :: "string list"

definition ComputeDiff :: "Manifest \<Rightarrow> Manifest \<Rightarrow> bool \<Rightarrow> DiffResult" where
  "ComputeDiff local remote deleteEnabled =
     (let uploads = map fst (filter (\<lambda>(path, le).
                       case map_of remote path of
                         None \<Rightarrow> True
                       | Some re \<Rightarrow> Hash le \<noteq> Hash re) local);
          deletes = (if deleteEnabled
                     then map fst (filter (\<lambda>(path, re). map_of local path = None) remote)
                     else [])
      in \<lparr>Uploads = sort uploads, Deletes = sort deletes\<rparr>)"

text \<open>
  The manifests of \<open>TestComputeDiff\<close> (pkg/pack/pack_test.go), with modes filled in so
  that \<open>same.go\<close> has equal hashes and different modes on the two sides.
\<close>

definition test_local :: Manifest where
  "test_local =
     [(''new.go'', \<lparr>Path = ''new.go'', Hash = ''aaa'', Mode = 420, Size = 100\<rparr>),
      (''changed.go'', \<lparr>Path = ''changed.go'', Hash = ''bbb'', Mode = 420, Size = 200\<rparr>),
      (''same.go'', \<lparr>Path = ''same.go'', Hash = ''ccc'', Mode = 493, Size = 300\<rparr>)]"

definition test_remote :: Manifest where
  "test_remote =
     [(''changed.go'', \<lparr>Path = ''changed.go'', Hash = ''old'', Mode = 420, Size = 200\<rparr>),
      (''same.go'', \<lparr>Path = ''same.go'', Hash = ''ccc'', Mode = 420, Size = 300\<rparr>),
      (''deleted.go'', \<lparr>Path = ''deleted.go'', Hash = ''ddd'', Mode = 420, Size = 400\<rparr>)]"

section \<open>Properties of the diff engine\<close>

lemma is_manifest_test_local: "is_manifest test_local"
  by (simp add: is_manifest_def test_local_def)

lemma is_manifest_test_remote: "is_manifest test_remote"
  by (simp add: is_manifest_def test_remote_def)

lemma is_manifest_rev: "is_manifest m \<Longrightarrow> is_manifest (rev m)"
  by (simp add: is_manifest_def distinct_rev rev_map[symmetric])

lemma map_of_rev: "is_manifest m \<Longrightarrow> map_of (rev m) = map_of m"
  by (metis distinct_rev is_manifest_def map_of_inject_set rev_map set_rev)

lemma is_manifest_lookup:
  "is_manifest m \<Longrightarrow> (p, e) \<in> set m \<longleftrightarrow> map_of m p = Some e"
  by (auto simp: is_manifest_def)

lemma set_Uploads:
  assumes "is_manifest source"
  shows "set (Uploads (ComputeDiff source target d)) =
         {p. \<exists>le. map_of source p = Some le \<and>
               (map_of target p = None \<or> Hash (the (map_of target p)) \<noteq> Hash le)}"
proof -
  have "set (Uploads (ComputeDiff source target d)) =
        {p. \<exists>le. (p, le) \<in> set source \<and>
              (map_of target p = None \<or> Hash (the (map_of target p)) \<noteq> Hash le)}"
    by (force simp: ComputeDiff_def Let_def split: option.splits)
  then show ?thesis
    using assms by (simp add: is_manifest_lookup)
qed

lemma set_Deletes:
  "set (Deletes (ComputeDiff source target d)) =
     (if d then {p. p \<in> dom (map_of target) \<and> p \<notin> dom (map_of source)} else {})"
proof -
  have "fst ` {x \<in> set target. map_of source (fst x) = None} =
        {p. p \<in> dom (map_of target) \<and> p \<notin> dom (map_of source)}"
    unfolding dom_map_of_conv_image_fst map_of_eq_None_iff by force
  then show ?thesis
    by (simp add: ComputeDiff_def Let_def case_prod_unfold)
qed

lemma distinct_Uploads:
  "is_manifest source \<Longrightarrow> distinct (Uploads (ComputeDiff source target d))"
  by (simp add: ComputeDiff_def Let_def is_manifest_def distinct_map_filter)

lemma distinct_Deletes:
  "is_manifest target \<Longrightarrow> distinct (Deletes (ComputeDiff source target d))"
  by (simp add: ComputeDiff_def Let_def is_manifest_def distinct_map_filter)

text \<open>
  C4. For manifests \<open>source\<close> and \<open>target\<close> and every \<open>deleteEnabled\<close>, the uploads are
  exactly (each once) the keys of \<open>source\<close> that are absent from \<open>target\<close> or whose hash
  differs there; the deletes are exactly (each once) the keys of \<open>target\<close> absent from
  \<open>source\<close> when \<open>deleteEnabled\<close>, and nothing otherwise; a key with equal hash and
  different mode is not uploaded.
\<close>

theorem ComputeDiff_exact:
  assumes "is_manifest source" and "is_manifest target"
  shows "set (Uploads (ComputeDiff source target deleteEnabled)) =
           {p. \<exists>le. map_of source p = Some le \<and>
                 (map_of target p = None \<or> Hash (the (map_of target p)) \<noteq> Hash le)}
       \<and> distinct (Uploads (ComputeDiff source target deleteEnabled))
       \<and> set (Deletes (ComputeDiff source target deleteEnabled)) =
           (if deleteEnabled
            then {p. p \<in> dom (map_of target) \<and> p \<notin> dom (map_of source)} else {})
       \<and> distinct (Deletes (ComputeDiff source target deleteEnabled))
       \<and> (\<forall>p le re. map_of source p = Some le \<and> map_of target p = Some re \<and>
              Hash le = Hash re \<and> Mode le \<noteq> Mode re \<longrightarrow>
              p \<notin> set (Uploads (ComputeDiff source target deleteEnabled)))"
  using assms
  by (simp add: set_Uploads set_Deletes distinct_Uploads distinct_Deletes)

theorem ComputeDiff_exact_witness:
  "is_manifest test_local \<and> is_manifest test_remote \<and>
   ''same.go'' \<notin> set (Uploads (ComputeDiff test_local test_remote True)) \<and>
   distinct (Uploads (ComputeDiff test_local test_remote True)) \<and>
   set (Deletes (ComputeDiff test_local test_remote True)) =
     {p. p \<in> dom (map_of test_remote) \<and> p \<notin> dom (map_of test_local)}"
proof -
  note h = ComputeDiff_exact[OF is_manifest_test_local is_manifest_test_remote, of True]
  have l: "map_of test_local ''same.go'' =
      Some \<lparr>Path = ''same.go'', Hash = ''ccc'', Mode = 493, Size = 300\<rparr>"
    by (simp add: test_local_def)
  have r: "map_of test_remote ''same.go'' =
      Some \<lparr>Path = ''same.go'', Hash = ''ccc'', Mode = 420, Size = 300\<rparr>"
    by (simp add: test_remote_def)
  from h have "\<forall>p le re. map_of test_local p = Some le \<and> map_of test_remote p = Some re \<and>
      Hash le = Hash re \<and> Mode le \<noteq> Mode re \<longrightarrow>
      p \<notin> set (Uploads (ComputeDiff test_local test_remote True))"
    by blast
  with l r have "''same.go'' \<notin> set (Uploads (ComputeDiff test_local test_remote True))"
    by simp
  with h show ?thesis
    using is_manifest_test_local is_manifest_test_remote by simp
qed

text \<open>
  C5. The uploads and the deletes of one diff share no path, and each sequence is strictly
  ascending in the bytewise lexicographic order.
\<close>

theorem ComputeDiff_disjoint_sorted:
  assumes "is_manifest source" and "is_manifest target"
  shows "set (Uploads (ComputeDiff source target deleteEnabled)) \<inter>
           set (Deletes (ComputeDiff source target deleteEnabled)) = {}
       \<and> sorted_wrt (<) (Uploads (ComputeDiff source target deleteEnabled))
       \<and> sorted_wrt (<) (Deletes (ComputeDiff source target deleteEnabled))"
proof -
  have "set (Uploads (ComputeDiff source target deleteEnabled)) \<inter>
          set (Deletes (ComputeDiff source target deleteEnabled)) = {}"
    using assms(1) by (auto simp: set_Uploads set_Deletes)
  moreover have "sorted (Uploads (ComputeDiff source target deleteEnabled))"
    and "sorted (Deletes (ComputeDiff source target deleteEnabled))"
    by (simp_all add: ComputeDiff_def Let_def)
  ultimately show ?thesis
    using assms by (simp add: strict_sorted_iff distinct_Uploads distinct_Deletes)
qed

theorem ComputeDiff_disjoint_sorted_witness:
  "is_manifest test_local \<and> is_manifest test_remote \<and>
   Uploads (ComputeDiff test_local test_remote True) = [''changed.go'', ''new.go''] \<and>
   Deletes (ComputeDiff test_local test_remote True) = [''deleted.go''] \<and>
   set (Uploads (ComputeDiff test_local test_remote True)) \<inter>
     set (Deletes (ComputeDiff test_local test_remote True)) = {} \<and>
   sorted_wrt (<) (Uploads (ComputeDiff test_local test_remote True)) \<and>
   sorted_wrt (<) (Deletes (ComputeDiff test_local test_remote True))"
proof -
  have "ComputeDiff test_local test_remote True =
      \<lparr>Uploads = [''changed.go'', ''new.go''], Deletes = [''deleted.go'']\<rparr>"
    by (simp add: ComputeDiff_def test_local_def test_remote_def)
  then show ?thesis
    using ComputeDiff_disjoint_sorted[OF is_manifest_test_local is_manifest_test_remote, of True]
      is_manifest_test_local is_manifest_test_remote
    by simp
qed

text \<open>
  C8. Two calls on the same source map, the same target map and the same flag return the
  same uploads and the same deletes, whatever order the two range loops of either call
  take: the two visiting orders of a map are two lists with equal \<^const>\<open>map_of\<close>.
\<close>

theorem ComputeDiff_deterministic:
  assumes "is_manifest source" and "is_manifest source'"
    and "is_manifest target" and "is_manifest target'"
    and "map_of source = map_of source'" and "map_of target = map_of target'"
  shows "ComputeDiff source target deleteEnabled = ComputeDiff source' target' deleteEnabled"
proof -
  let ?r = "ComputeDiff source target deleteEnabled"
  let ?r' = "ComputeDiff source' target' deleteEnabled"
  have srt: "sorted (Uploads ?r)" "sorted (Uploads ?r')"
    "sorted (Deletes ?r)" "sorted (Deletes ?r')"
    by (simp_all add: ComputeDiff_def Let_def)
  have "set (Uploads ?r) = set (Uploads ?r')"
    using assms by (simp add: set_Uploads)
  then have u: "Uploads ?r = Uploads ?r'"
    using srt assms by (intro sorted_distinct_set_unique) (simp_all add: distinct_Uploads)
  have "set (Deletes ?r) = set (Deletes ?r')"
    using assms by (simp add: set_Deletes)
  then have d: "Deletes ?r = Deletes ?r'"
    using srt assms by (intro sorted_distinct_set_unique) (simp_all add: distinct_Deletes)
  show ?thesis
    using u d by (rule_tac DiffResult.equality) simp_all
qed

theorem ComputeDiff_deterministic_witness:
  "is_manifest test_local \<and> is_manifest (rev test_local) \<and>
   is_manifest test_remote \<and> is_manifest (rev test_remote) \<and>
   map_of test_local = map_of (rev test_local) \<and>
   map_of test_remote = map_of (rev test_remote) \<and>
   ComputeDiff test_local test_remote True =
     ComputeDiff (rev test_local) (rev test_remote) True"
proof -
  note l = is_manifest_test_local and r = is_manifest_test_remote
  note l' = is_manifest_rev[OF l] and r' = is_manifest_rev[OF r]
  note ml = map_of_rev[OF l, symmetric] and mr = map_of_rev[OF r, symmetric]
  show ?thesis
    using ComputeDiff_deterministic[OF l l' r r' ml mr, of True] l r l' r' ml mr by blast
qed

section \<open>Strings (the functions of Go's package strings that the code calls)\<close>

definition HasPrefix :: "string \<Rightarrow> string \<Rightarrow> bool" where
  "HasPrefix s pre = prefix pre s"

definition HasSuffix :: "string \<Rightarrow> string \<Rightarrow> bool" where
  "HasSuffix s suf = suffix suf s"

definition TrimPrefix :: "string \<Rightarrow> string \<Rightarrow> string" where
  "TrimPrefix s pre = (if HasPrefix s pre then drop (length pre) s else s)"

definition TrimSuffix :: "string \<Rightarrow> string \<Rightarrow> string" where
  "TrimSuffix s suf = (if HasSuffix s suf then take (length s - length suf) s else s)"

text \<open>\<open>Cut s sep\<close>: the text before and after the first occurrence of \<open>sep\<close> in \<open>s\<close>.\<close>

fun Cut :: "string \<Rightarrow> string \<Rightarrow> (string \<times> string) option" where
  "Cut [] sep = (if sep = [] then Some ([], []) else None)"
| "Cut (c # cs) sep =
     (if prefix sep (c # cs) then Some ([], drop (length sep) (c # cs))
      else case Cut cs sep of
             None \<Rightarrow> None
           | Some (front, back) \<Rightarrow> Some (c # front, back))"

definition Contains :: "string \<Rightarrow> string \<Rightarrow> bool" where
  "Contains s substr = (Cut s substr \<noteq> None)"

lemma Cut_length: "Cut s sep = Some (b, a) \<Longrightarrow> length b + length sep + length a = length s"
  by (induction s arbitrary: b) (auto split: if_splits option.splits dest: prefix_length_le)

lemma Cut_shorter: "sep \<noteq> [] \<Longrightarrow> Cut s sep = Some (b, a) \<Longrightarrow> length a < length s"
  using Cut_length[of s sep b a] by (cases sep) auto

function Split :: "string \<Rightarrow> string \<Rightarrow> string list" where
  "Split s sep =
     (if sep = [] then map (\<lambda>c. [c]) s
      else case Cut s sep of
             None \<Rightarrow> [s]
           | Some (front, back) \<Rightarrow> front # Split back sep)"
  by pat_completeness auto
termination
  by (relation "measure (\<lambda>(s, sep). length s)") (auto dest: Cut_shorter)

declare Split.simps [simp del]

fun Join :: "string list \<Rightarrow> string \<Rightarrow> string" where
  "Join [] sep = []"
| "Join [x] sep = x"
| "Join (x # y # ys) sep = x @ sep @ Join (y # ys) sep"

section \<open>Paths (pkg/paths/pathutil.go over Go's path and path/filepath)\<close>

text \<open>
  The operating system is Unix: the separator of \<open>path/filepath\<close> is the slash, there are
  no volume names, \<open>filepath.ToSlash\<close> is the identity and \<open>filepath.Clean\<close>,
  \<open>filepath.IsAbs\<close> are \<open>path.Clean\<close>, \<open>path.IsAbs\<close>.

  \<open>Clean\<close> follows the four rules of its documentation: the elements between slashes are
  read left to right; empty elements and \<open>.\<close> are dropped; \<open>..\<close> removes the element
  before it when that is not itself \<open>..\<close>, is dropped at the root of a rooted path, and is
  kept otherwise; the empty result is \<open>.\<close>.
\<close>

definition IsAbs :: "string \<Rightarrow> bool" where
  "IsAbs path = HasPrefix path ''/''"

fun clean_elem :: "bool \<Rightarrow> string list \<Rightarrow> string \<Rightarrow> string list" where
  "clean_elem rooted out e =
     (if e = [] \<or> e = ''.'' then out
      else if e = ''..'' then
        (if out \<noteq> [] \<and> last out \<noteq> ''..'' then butlast out
         else if rooted then out
         else out @ [''..''])
      else out @ [e])"

definition Clean :: "string \<Rightarrow> string" where
  "Clean path =
     (if path = [] then ''.''
      else let rooted = IsAbs path;
               out = foldl (clean_elem rooted) [] (Split path ''/'')
           in if rooted then ''/'' @ Join out ''/''
              else if out = [] then ''.''
              else Join out ''/'')"

definition filepath_Join :: "string \<Rightarrow> string \<Rightarrow> string" where
  "filepath_Join a b =
     (if a \<noteq> [] then Clean (Join [a, b] ''/'')
      else if b \<noteq> [] then Clean b
      else [])"

definition filepath_Dir :: "string \<Rightarrow> string" where
  "filepath_Dir path = Clean (rev (dropWhile (\<lambda>c. c \<noteq> CHR ''/'') (rev path)))"

function rel_loop :: "string \<Rightarrow> string \<Rightarrow> string option" where
  "rel_loop base targ =
     (if base = [] \<or> targ = [] then
        (if base \<noteq> [] then
           Some (''..'' @ concat (replicate (count_list base CHR ''/'') ''/..'') @
                 (if targ \<noteq> [] then ''/'' @ targ else []))
         else Some targ)
      else
        let be = takeWhile (\<lambda>c. c \<noteq> CHR ''/'') base;
            te = takeWhile (\<lambda>c. c \<noteq> CHR ''/'') targ
        in if te \<noteq> be then
             (if be = ''..'' then None
              else Some (''..'' @ concat (replicate (count_list base CHR ''/'') ''/..'') @
                         ''/'' @ targ))
           else rel_loop (drop (Suc (length be)) base) (drop (Suc (length te)) targ))"
  by pat_completeness auto
termination
  by (relation "measure (\<lambda>(b, t). length b)") auto

declare rel_loop.simps [simp del]

definition filepath_Rel :: "string \<Rightarrow> string \<Rightarrow> string option" where
  "filepath_Rel basepath targpath =
     (let base = Clean basepath; targ = Clean targpath
      in if targ = base then Some ''.''
         else let base' = (if base = ''.'' then [] else base)
              in if IsAbs base' \<noteq> IsAbs targ then None
                 else rel_loop base' targ)"

definition IsWithinDir :: "string \<Rightarrow> string \<Rightarrow> bool" where
  "IsWithinDir dir full =
     (case filepath_Rel dir full of
        None \<Rightarrow> False
      | Some rel \<Rightarrow> rel \<noteq> ''..'' \<and> \<not> HasPrefix rel ''../'' \<and> \<not> IsAbs rel)"

definition ValidateRelPath :: "string \<Rightarrow> string option" where
  "ValidateRelPath p =
     (if p = [] then Some ''empty path''
      else if CHR 0x00 \<in> set p then Some ''path contains null byte''
      else if IsAbs p then Some (''absolute path not allowed: '' @ p)
      else let cleaned = Clean p
           in if cleaned = ''.'' then Some ''path resolves to current directory''
              else if cleaned = ''..'' \<or> HasPrefix cleaned ''../''
                then Some (''path escapes base directory: '' @ p)
              else None)"


section \<open>Path validation\<close>

text \<open>
  C3. \<open>ValidateRelPath P\<close> returns nil exactly when \<open>P\<close> is non-empty, has no null byte,
  is not absolute, and its cleaned form is neither \<open>.\<close> nor \<open>..\<close> nor begins with
  \<open>../\<close>.
\<close>

theorem ValidateRelPath_nil_iff:
  "ValidateRelPath P = None \<longleftrightarrow>
     (P \<noteq> [] \<and> CHR 0x00 \<notin> set P \<and> \<not> IsAbs P \<and> Clean P \<noteq> ''.'' \<and>
      Clean P \<noteq> ''..'' \<and> \<not> HasPrefix (Clean P) ''../'')"
  by (simp add: ValidateRelPath_def Let_def)

section \<open>Glob matching (filepath.Match of Go's path/filepath on Unix)\<close>

text \<open>
  \<open>DecodeRuneInString\<close> of \<open>unicode/utf8\<close>: the first code point of a byte string and the
  number of bytes it takes; \<open>(RuneError, 1)\<close> on a malformed encoding, \<open>(RuneError, 0)\<close> on
  the empty string.
\<close>

definition RuneError :: nat where
  "RuneError = 0xFFFD"

definition DecodeRuneInString :: "string \<Rightarrow> nat \<times> nat" where
  "DecodeRuneInString s =
     (case s of
        [] \<Rightarrow> (RuneError, 0)
      | c0 # _ \<Rightarrow>
          let b0 = (of_char c0 :: nat) in
          if b0 < 0x80 then (b0, 1)
          else if b0 < 0xC2 \<or> 0xF4 < b0 then (RuneError, 1)
          else
            let sz = (if b0 < 0xE0 then 2 else if b0 < 0xF0 then 3 else 4 :: nat);
                lo = (if b0 = 0xE0 then 0xA0 else if b0 = 0xF0 then 0x90 else 0x80 :: nat);
                hi = (if b0 = 0xED then 0x9F else if b0 = 0xF4 then 0x8F else 0xBF :: nat)
            in if length s < sz then (RuneError, 1)
               else
                 let b1 = (of_char (s ! 1) :: nat) in
                 if b1 < lo \<or> hi < b1 then (RuneError, 1)
                 else if sz = 2 then ((b0 mod 0x20) * 0x40 + b1 mod 0x40, 2)
                 else
                   let b2 = (of_char (s ! 2) :: nat) in
                   if b2 < 0x80 \<or> 0xBF < b2 then (RuneError, 1)
                   else if sz = 3 then
                     ((b0 mod 0x10) * 0x1000 + (b1 mod 0x40) * 0x40 + b2 mod 0x40, 3)
                   else
                     let b3 = (of_char (s ! 3) :: nat) in
                     if b3 < 0x80 \<or> 0xBF < b3 then (RuneError, 1)
                     else ((b0 mod 0x08) * 0x40000 + (b1 mod 0x40) * 0x1000 +
                           (b2 mod 0x40) * 0x40 + b3 mod 0x40, 4))"

text \<open>
  \<open>scanChunk\<close>: the leading stars of the pattern are dropped (\<open>star\<close> tells whether there
  were any); the chunk runs up to the next star outside a bracket expression.
\<close>

fun scan_len :: "bool \<Rightarrow> string \<Rightarrow> nat" where
  "scan_len inrange [] = 0"
| "scan_len inrange (c # cs) =
     (if c = CHR 0x5C then
        (case cs of [] \<Rightarrow> 1 | _ # cs' \<Rightarrow> 2 + scan_len inrange cs')
      else if c = CHR ''['' then 1 + scan_len True cs
      else if c = CHR '']'' then 1 + scan_len False cs
      else if c = CHR ''*'' \<and> \<not> inrange then 0
      else 1 + scan_len inrange cs)"

definition scanChunk :: "string \<Rightarrow> bool \<times> string \<times> string" where
  "scanChunk pattern =
     (let star = (pattern \<noteq> [] \<and> hd pattern = CHR ''*'');
          p = dropWhile (\<lambda>c. c = CHR ''*'') pattern;
          i = scan_len False p
      in (star, take i p, drop i p))"

text \<open>
  \<open>getEsc\<close>: one character of a bracket expression, possibly escaped; \<open>None\<close> is
  \<open>ErrBadPattern\<close>.
\<close>

definition getEsc :: "string \<Rightarrow> (nat \<times> string) option" where
  "getEsc chunk =
     (if chunk = [] \<or> hd chunk = CHR ''-'' \<or> hd chunk = CHR '']'' then None
      else
        let chunk1 = (if hd chunk = CHR 0x5C then tl chunk else chunk) in
        if chunk1 = [] then None
        else
          let (r, n) = DecodeRuneInString chunk1;
              nchunk = drop n chunk1
          in if (r = RuneError \<and> n = 1) \<or> nchunk = [] then None
             else Some (r, nchunk))"

lemma DecodeRuneInString_size: "s \<noteq> [] \<Longrightarrow> 0 < snd (DecodeRuneInString s)"
  by (cases s) (simp_all add: DecodeRuneInString_def Let_def)

lemma getEsc_shorter: "getEsc chunk = Some (r, nchunk) \<Longrightarrow> length nchunk < length chunk"
proof -
  assume a: "getEsc chunk = Some (r, nchunk)"
  then have ne: "chunk \<noteq> []" by (auto simp: getEsc_def)
  define chunk1 where "chunk1 = (if hd chunk = CHR 0x5C then tl chunk else chunk)"
  from a ne have c1: "chunk1 \<noteq> []" and n: "nchunk = drop (snd (DecodeRuneInString chunk1)) chunk1"
    by (auto simp: getEsc_def chunk1_def Let_def split: if_splits prod.splits)
  from c1 have "length nchunk < length chunk1"
    using DecodeRuneInString_size[OF c1] by (simp add: n)
  moreover have "length chunk1 \<le> length chunk"
    by (simp add: chunk1_def)
  ultimately show ?thesis by simp
qed

text \<open>
  The ranges of a bracket expression, up to the closing bracket: whether the rune \<open>r\<close> lies in
  one of them, and the rest of the chunk.
\<close>

function ranges :: "nat \<Rightarrow> string \<Rightarrow> bool \<Rightarrow> nat \<Rightarrow> (bool \<times> string) option" where
  "ranges r chunk match nrange =
     (if chunk \<noteq> [] \<and> hd chunk = CHR '']'' \<and> 0 < nrange then Some (match, tl chunk)
      else case getEsc chunk of
             None \<Rightarrow> None
           | Some (lo, chunk1) \<Rightarrow>
               if hd chunk1 = CHR ''-'' then
                 (case getEsc (tl chunk1) of
                    None \<Rightarrow> None
                  | Some (hi, chunk2) \<Rightarrow>
                      ranges r chunk2 (match \<or> (lo \<le> r \<and> r \<le> hi)) (Suc nrange))
               else ranges r chunk1 (match \<or> (lo \<le> r \<and> r \<le> lo)) (Suc nrange))"
  by pat_completeness auto
termination
proof (relation "measure (\<lambda>(r, chunk, match, nrange). length chunk)", goal_cases)
  case 1
  show ?case by simp
next
  case (2 r chunk match nrange x2 lo chunk1 x2a hi chunk2)
  then have "length chunk1 < length chunk" and "length chunk2 < length (tl chunk1)"
    by (auto dest: getEsc_shorter)
  then show ?case by simp
next
  case (3 r chunk match nrange x2 lo chunk1)
  then show ?case by (auto dest: getEsc_shorter)
qed

declare ranges.simps [simp del]

lemma ranges_shorter:
  "ranges r chunk match nrange = Some (m, rest) \<Longrightarrow> length rest < length chunk"
proof (induction r chunk match nrange rule: ranges.induct)
  case (1 r chunk match nrange)
  show ?case
  proof (cases "chunk \<noteq> [] \<and> hd chunk = CHR '']'' \<and> 0 < nrange")
    case True
    with "1.prems" have "Some (match, tl chunk) = Some (m, rest)"
      by (subst (asm) ranges.simps) simp
    with True show ?thesis
      by (cases chunk) auto
  next
    case False
    from "1.prems" False obtain lo chunk1 where g: "getEsc chunk = Some (lo, chunk1)"
      by (auto simp: ranges.simps[of r chunk] split: option.splits)
    note l1 = getEsc_shorter[OF g]
    show ?thesis
    proof (cases "hd chunk1 = CHR ''-''")
      case True
      from "1.prems" False g True obtain hi chunk2 where
        g2: "getEsc (tl chunk1) = Some (hi, chunk2)"
        and r: "ranges r chunk2 (match \<or> (lo \<le> r \<and> r \<le> hi)) (Suc nrange) = Some (m, rest)"
        by (auto simp: ranges.simps[of r chunk] split: option.splits)
      from "1.IH"(1)[OF False g refl True g2 refl r]
      have "length rest < length chunk2" .
      moreover have "length chunk2 < length (tl chunk1)" using getEsc_shorter[OF g2] .
      ultimately show ?thesis using l1 by simp
    next
      case F2: False
      from "1.prems" False g F2 have
        r: "ranges r chunk1 (match \<or> (lo \<le> r \<and> r \<le> lo)) (Suc nrange) = Some (m, rest)"
        by (auto simp: ranges.simps[of r chunk] split: option.splits)
      from "1.IH"(2)[OF False g refl F2 r]
      show ?thesis using l1 by simp
    qed
  qed
qed

text \<open>
  \<open>matchChunk\<close>: whether the chunk (literals, \<open>?\<close> and bracket expressions) matches a
  prefix of \<open>s\<close>, and the rest of \<open>s\<close>. After a mismatch (\<open>failed\<close>) the chunk is still read
  to its end, to find a malformed pattern.
\<close>

datatype chunk_result = BadPattern | NoMatch | Matched string

function matchChunk_loop :: "bool \<Rightarrow> string \<Rightarrow> string \<Rightarrow> chunk_result" where
  "matchChunk_loop failed [] s = (if failed then NoMatch else Matched s)"
| "matchChunk_loop failed0 (c # chunk) s =
     (let failed = (failed0 \<or> s = []) in
      if c = CHR ''['' then
        (let (r, s1) = (if \<not> failed
                        then (fst (DecodeRuneInString s), drop (snd (DecodeRuneInString s)) s)
                        else (0, s));
             negated = (chunk \<noteq> [] \<and> hd chunk = CHR ''^'');
             chunk1 = (if negated then tl chunk else chunk)
         in case ranges r chunk1 False 0 of
              None \<Rightarrow> BadPattern
            | Some (match, chunk2) \<Rightarrow> matchChunk_loop (failed \<or> match = negated) chunk2 s1)
      else if c = CHR ''?'' then
        (if \<not> failed
         then matchChunk_loop (hd s = CHR ''/'') chunk (drop (snd (DecodeRuneInString s)) s)
         else matchChunk_loop failed chunk s)
      else if c = CHR 0x5C then
        (case chunk of
           [] \<Rightarrow> BadPattern
         | c' # chunk' \<Rightarrow>
             if \<not> failed then matchChunk_loop (c' \<noteq> hd s) chunk' (tl s)
             else matchChunk_loop failed chunk' s)
      else
        (if \<not> failed then matchChunk_loop (c \<noteq> hd s) chunk (tl s)
         else matchChunk_loop failed chunk s))"
  by pat_completeness auto
termination
proof (relation "measure (\<lambda>(failed, chunk, s). length chunk)", goal_cases)
  case (2 failed0 c chunk s failed x xa y negated chunk1 x2 xb ya)
  then have "length ya < length chunk1" by (auto dest: ranges_shorter)
  moreover from 2 have "length chunk1 \<le> length chunk" by auto
  ultimately show ?case by simp
qed auto

definition matchChunk :: "string \<Rightarrow> string \<Rightarrow> chunk_result" where
  "matchChunk chunk s = matchChunk_loop False chunk s"


text \<open>
  The search of \<open>Match\<close> after a star: the chunk is tried after skipping one more byte of
  the name at a time, never a slash. \<open>final\<close> tells that the chunk is the last of the pattern,
  when a match must use up the name.
\<close>

fun star_search :: "string \<Rightarrow> bool \<Rightarrow> string \<Rightarrow> string option" where
  "star_search chunk final [] = None"
| "star_search chunk final (c # name) =
     (if c = CHR ''/'' then None
      else case matchChunk chunk name of
             Matched t \<Rightarrow> if final \<and> t \<noteq> [] then star_search chunk final name else Some t
           | BadPattern \<Rightarrow> None
           | NoMatch \<Rightarrow> star_search chunk final name)"

lemma scan_len_le: "scan_len inrange p \<le> length p"
  by (induction inrange p rule: scan_len.induct) (auto split: list.splits)

lemma scan_len_pos: "p \<noteq> [] \<Longrightarrow> hd p \<noteq> CHR ''*'' \<Longrightarrow> 0 < scan_len inrange p"
  by (cases p) (auto split: list.splits)

lemma scanChunk_shorter:
  assumes "pattern \<noteq> []" and "(star, chunk, rest) = scanChunk pattern"
  shows "length rest < length pattern"
proof -
  define p where "p = dropWhile (\<lambda>c. c = CHR ''*'') pattern"
  have rest: "rest = drop (scan_len False p) p"
    using assms(2)[symmetric] by (simp add: scanChunk_def p_def Let_def)
  have le: "length p \<le> length pattern"
    by (simp add: p_def length_dropWhile_le)
  show ?thesis
  proof (cases "hd pattern = CHR ''*''")
    case True
    with assms(1) have "length p < length pattern"
      by (cases pattern) (auto simp: p_def intro: le_imp_less_Suc length_dropWhile_le)
    then show ?thesis by (simp add: rest)
  next
    case False
    with assms(1) have "p = pattern"
      by (cases pattern) (auto simp: p_def)
    with False assms(1) have "0 < scan_len False p"
      by (simp add: scan_len_pos)
    with assms(1) \<open>p = pattern\<close> show ?thesis
      by (simp add: rest)
  qed
qed

text \<open>
  \<open>Match\<close>: the boolean that \<open>filepath.Match\<close> returns. The callers drop its error, with
  which the boolean is false.
\<close>

function Match :: "string \<Rightarrow> string \<Rightarrow> bool" where
  "Match pattern name =
     (if pattern = [] then name = []
      else
        let (star, chunk, rest) = scanChunk pattern in
        if star \<and> chunk = [] then \<not> Contains name ''/''
        else
          case (case matchChunk chunk name of
                  Matched t \<Rightarrow>
                    if t = [] \<or> rest \<noteq> [] then Some t
                    else if star then star_search chunk (rest = []) name
                    else None
                | BadPattern \<Rightarrow> None
                | NoMatch \<Rightarrow> if star then star_search chunk (rest = []) name else None) of
            None \<Rightarrow> False
          | Some t \<Rightarrow> Match rest t)"
  by pat_completeness auto
termination
  by (relation "measure (\<lambda>(pattern, name). length pattern)")
    (auto dest: scanChunk_shorter)

declare Match.simps [simp del]

section \<open>The exclude matcher (pkg/paths/exclude.go)\<close>

function matchSuffix_from :: "string \<Rightarrow> string list \<Rightarrow> nat \<Rightarrow> bool" where
  "matchSuffix_from suf parts i =
     (if i < length parts then
        (if Match suf (Join (drop i parts) ''/'') then True
         else matchSuffix_from suf parts (Suc i))
      else False)"
  by pat_completeness auto
termination
  by (relation "measure (\<lambda>(suf, parts, i). length parts - i)") auto

declare matchSuffix_from.simps [simp del]

definition matchSuffix :: "string \<Rightarrow> string \<Rightarrow> bool" where
  "matchSuffix suf relPath = matchSuffix_from suf (Split relPath ''/'') 0"

definition matchDoublestar :: "string \<Rightarrow> string \<Rightarrow> bool" where
  "matchDoublestar pattern relPath =
     (let parts = Split pattern ''**'' in
      if length parts \<noteq> 2 then False
      else
        let prefix = TrimSuffix (parts ! 0) ''/'';
            suffix = TrimPrefix (parts ! 1) ''/''
        in if prefix = [] \<and> suffix = [] then True
           else if prefix = [] then matchSuffix suffix relPath
           else if suffix = [] then HasPrefix relPath (prefix @ ''/'') \<or> relPath = prefix
           else if \<not> HasPrefix relPath (prefix @ ''/'') then False
           else matchSuffix suffix (TrimPrefix relPath (prefix @ ''/'')))"

definition matchPathPattern :: "string \<Rightarrow> string \<Rightarrow> bool" where
  "matchPathPattern pattern relPath =
     (if Contains pattern ''**'' then matchDoublestar pattern relPath
      else Match pattern relPath)"

definition matchPattern :: "string \<Rightarrow> string \<Rightarrow> bool" where
  "matchPattern pattern0 relPath =
     (let pattern = TrimSuffix pattern0 ''/'' in
      if Contains pattern ''/'' then matchPathPattern pattern relPath
      else if list_ex (\<lambda>part. Match pattern part) (Split relPath ''/'') then True
      else if Contains pattern ''**'' then matchDoublestar pattern relPath
      else False)"

definition ExcludeMatcher_Match :: "string list \<Rightarrow> string \<Rightarrow> bool" where
  "ExcludeMatcher_Match patterns relPath = list_ex (\<lambda>pat. matchPattern pat relPath) patterns"

text \<open>
  The rule of the doublestar row as the code applies it, for a prefix and a suffix already
  trimmed of their joining slash: \<open>tail_matches\<close> says that some slash-separated tail of
  a path glob-matches the suffix.
\<close>

definition tail_matches :: "string \<Rightarrow> string \<Rightarrow> bool" where
  "tail_matches suf s =
     (\<exists>i < length (Split s ''/''). Match suf (Join (drop i (Split s ''/'')) ''/''))"

definition doublestar_rule :: "string \<Rightarrow> string \<Rightarrow> string \<Rightarrow> bool" where
  "doublestar_rule pre suf relPath =
     (if suf = [] then pre = [] \<or> HasPrefix relPath (pre @ ''/'') \<or> relPath = pre
      else if pre = [] then tail_matches suf relPath
      else HasPrefix relPath (pre @ ''/'') \<and>
           tail_matches suf (drop (Suc (length pre)) relPath))"

text \<open>
  The doublestar row of the specification, in its words: the pattern is split on the first
  \<open>**\<close> into prefix and suffix; the path matches when it begins with the prefix and a slash
  (or equals the prefix) and some tail of the remainder glob-matches the suffix; \<open>**\<close> alone
  matches anything. An empty prefix constrains nothing, as does an empty suffix.
\<close>

definition doublestar_spec :: "string \<Rightarrow> string \<Rightarrow> bool" where
  "doublestar_spec pattern relPath =
     (case Cut pattern ''**'' of
        None \<Rightarrow> False
      | Some (front, back) \<Rightarrow>
          let pre = TrimSuffix front ''/'';
              suf = TrimPrefix back ''/'';
              remainder = (if pre = [] then relPath
                           else if HasPrefix relPath (pre @ ''/'')
                             then drop (Suc (length pre)) relPath
                           else [])
          in (pre = [] \<or> HasPrefix relPath (pre @ ''/'') \<or> relPath = pre) \<and>
             (suf = [] \<or> tail_matches suf remainder))"

lemma matchSuffix_from_iff:
  "matchSuffix_from suf parts i \<longleftrightarrow>
     (\<exists>j. i \<le> j \<and> j < length parts \<and> Match suf (Join (drop j parts) ''/''))"
proof (induction suf parts i rule: matchSuffix_from.induct)
  case (1 suf parts i)
  show ?case
  proof (cases "i < length parts")
    case False
    then show ?thesis by (subst matchSuffix_from.simps) auto
  next
    case True
    show ?thesis
    proof (cases "Match suf (Join (drop i parts) ''/'')")
      case m: True
      with True show ?thesis by (subst matchSuffix_from.simps) auto
    next
      case m: False
      have "matchSuffix_from suf parts i = matchSuffix_from suf parts (Suc i)"
        using True m by (subst matchSuffix_from.simps) simp
      also have "\<dots> \<longleftrightarrow>
          (\<exists>j. Suc i \<le> j \<and> j < length parts \<and> Match suf (Join (drop j parts) ''/''))"
        using "1.IH"[OF True m] .
      also have "\<dots> \<longleftrightarrow>
          (\<exists>j. i \<le> j \<and> j < length parts \<and> Match suf (Join (drop j parts) ''/''))"
        using m by (metis Suc_leD Suc_leI le_neq_implies_less)
      finally show ?thesis .
    qed
  qed
qed

lemma matchSuffix_iff: "matchSuffix suf relPath \<longleftrightarrow> tail_matches suf relPath"
  by (simp add: matchSuffix_def matchSuffix_from_iff tail_matches_def)

lemma Contains_Cut: "Cut s sep = Some (b, a) \<Longrightarrow> Contains s sep"
  by (simp add: Contains_def)

lemma Split_once:
  assumes "Cut pattern ''**'' = Some (front, back)" and "\<not> Contains back ''**''"
  shows "Split pattern ''**'' = [front, back]"
proof -
  from assms(2) have "Cut back ''**'' = None"
    unfolding Contains_def by blast
  then have "Split back ''**'' = [back]"
    by (subst Split.simps) simp
  with assms(1) show ?thesis
    by (subst Split.simps) simp
qed

lemma Split_twice:
  assumes "Cut pattern ''**'' = Some (front, back)" and "Contains back ''**''"
  shows "length (Split pattern ''**'') \<noteq> 2"
proof -
  from assms(2) obtain b a where c: "Cut back ''**'' = Some (b, a)"
    by (auto simp: Contains_def)
  have "Split a ''**'' \<noteq> []"
    by (subst Split.simps) (simp split: option.splits prod.splits)
  moreover have "Split pattern ''**'' = front # b # Split a ''**''"
    using assms(1) c by (subst Split.simps, simp, subst Split.simps, simp)
  ultimately show ?thesis
    by (cases "Split a ''**''") simp_all
qed

lemma TrimPrefix_drop: "HasPrefix s (p @ ''/'') \<Longrightarrow> TrimPrefix s (p @ ''/'') = drop (Suc (length p)) s"
  by (simp add: TrimPrefix_def)

lemma matchDoublestar_once:
  assumes "Cut pattern ''**'' = Some (front, back)" and "\<not> Contains back ''**''"
  shows "matchDoublestar pattern relPath \<longleftrightarrow>
           doublestar_rule (TrimSuffix front ''/'') (TrimPrefix back ''/'') relPath"
  using Split_once[OF assms]
  by (auto simp: matchDoublestar_def doublestar_rule_def Let_def matchSuffix_iff
      TrimPrefix_drop)

lemma matchDoublestar_twice:
  assumes "Cut pattern ''**'' = Some (front, back)" and "Contains back ''**''"
  shows "\<not> matchDoublestar pattern relPath"
  using Split_twice[OF assms] by (simp add: matchDoublestar_def Let_def)

text \<open>
  C7, as amended. Let the pattern, stripped of one trailing slash, contain \<open>**\<close>, with
  \<open>front\<close> and \<open>back\<close> the text on either side of the first one. The path matches
  exactly when \<open>back\<close> contains no further \<open>**\<close> and the doublestar rule holds for the
  prefix and suffix (each trimmed of its joining slash), or, for a pattern without a slash,
  when one segment of the path glob-matches the whole pattern. The pattern \<open>**\<close> alone
  matches every path.
\<close>

theorem matchPattern_doublestar:
  assumes "Cut (TrimSuffix pattern0 ''/'') ''**'' = Some (front, back)"
  shows "(matchPattern pattern0 relPath \<longleftrightarrow>
            (\<not> Contains (TrimSuffix pattern0 ''/'') ''/'' \<and>
             list_ex (\<lambda>part. Match (TrimSuffix pattern0 ''/'') part) (Split relPath ''/''))
            \<or> (\<not> Contains back ''**'' \<and>
                doublestar_rule (TrimSuffix front ''/'') (TrimPrefix back ''/'') relPath))
       \<and> matchPattern ''**'' relPath"
proof -
  have c: "Contains (TrimSuffix pattern0 ''/'') ''**''"
    using assms(1) by (rule Contains_Cut)
  have d: "matchDoublestar (TrimSuffix pattern0 ''/'') relPath \<longleftrightarrow>
      \<not> Contains back ''**'' \<and>
      doublestar_rule (TrimSuffix front ''/'') (TrimPrefix back ''/'') relPath"
    using matchDoublestar_once[OF assms, of relPath] matchDoublestar_twice[OF assms, of relPath]
    by blast
  have 1: "matchPattern pattern0 relPath \<longleftrightarrow>
            (\<not> Contains (TrimSuffix pattern0 ''/'') ''/'' \<and>
             list_ex (\<lambda>part. Match (TrimSuffix pattern0 ''/'') part) (Split relPath ''/''))
            \<or> (\<not> Contains back ''**'' \<and>
                doublestar_rule (TrimSuffix front ''/'') (TrimPrefix back ''/'') relPath)"
    using c d by (auto simp: matchPattern_def matchPathPattern_def Let_def)
  have t: "TrimSuffix ''**'' ''/'' = ''**''"
    by (simp add: TrimSuffix_def HasSuffix_def suffix_def)
  have cut: "Cut ''**'' ''**'' = Some ([], [])" by simp
  have nc: "\<not> Contains [] ''**''" by (simp add: Contains_def)
  have "matchDoublestar ''**'' relPath"
    using matchDoublestar_once[OF cut nc, of relPath]
    by (simp add: doublestar_rule_def TrimPrefix_def TrimSuffix_def HasPrefix_def HasSuffix_def)
  then have 2: "matchPattern ''**'' relPath"
    by (simp add: matchPattern_def matchPathPattern_def Let_def t Contains_def)
  from 1 2 show ?thesis by blast
qed

theorem matchPattern_doublestar_witness:
  "Cut (TrimSuffix ''src/**/*.pb.go'' ''/'') ''**'' = Some (''src/'', ''/*.pb.go'') \<and>
   matchPattern ''src/**/*.pb.go'' ''src/api/v1/types.pb.go'' \<and>
   \<not> matchPattern ''src/**/*.pb.go'' ''pkg/types.pb.go''"
proof -
  have cut: "Cut (TrimSuffix ''src/**/*.pb.go'' ''/'') ''**'' = Some (''src/'', ''/*.pb.go'')"
    by code_simp
  have c: "Contains (TrimSuffix ''src/**/*.pb.go'' ''/'') ''/''"
    and n: "\<not> Contains ''/*.pb.go'' ''**''"
    and r1: "doublestar_rule (TrimSuffix ''src/'' ''/'') (TrimPrefix ''/*.pb.go'' ''/'')
               ''src/api/v1/types.pb.go''"
    and r2: "\<not> doublestar_rule (TrimSuffix ''src/'' ''/'') (TrimPrefix ''/*.pb.go'' ''/'')
               ''pkg/types.pb.go''"
    by code_simp+
  show ?thesis
    using matchPattern_doublestar[OF cut, of "''src/api/v1/types.pb.go''"]
      matchPattern_doublestar[OF cut, of "''pkg/types.pb.go''"] cut c n r1 r2
    by blast
qed

text \<open>
  The claim as stated fails on a pattern with two \<open>**\<close>: split on the first one,
  \<open>a/**/b/**/c\<close> has prefix \<open>a\<close> and suffix \<open>b/**/c\<close>, the path \<open>a/b/x/c\<close> begins with
  \<open>a/\<close> and its remainder \<open>b/x/c\<close> glob-matches the suffix; the code splits the pattern
  into three parts and reports no match.
\<close>

theorem matchPattern_doublestar_counterexample:
  "doublestar_spec ''a/**/b/**/c'' ''a/b/x/c'' \<and> \<not> matchPattern ''a/**/b/**/c'' ''a/b/x/c''"
  by code_simp

unbundle bit_operations_syntax

section \<open>The file system (what package os does for the calls of the code)\<close>

text \<open>
  The tree is a map from positions to nodes. A position is the list of names that leads
  to it from the root, or from the working directory; a position above the working
  directory begins with \<open>..\<close> elements. The root, the working directory and the directories
  above it (\<open>anchor\<close>) always exist and are directories. There are no symbolic links.
  Permission checks, quotas, devices and mount points are not modelled: a call fails only
  for the shape of the tree or for the length of a name or of a path (\<open>NAME_MAX\<close> and
  \<open>PATH_MAX\<close>, with the values of Linux). An error of the system is worded as
  \<open>os.PathError\<close> words it: the operation, the path, the text of the error number.

  A node carries its mode bits; a file carries its content. A node is created with the
  requested permission bits less those of the process's file mode creation mask
  (\<open>umask\<close>). \<open>dir_size\<close> is the size that \<open>stat\<close> reports for a directory.
  The octal modes 0755 and 0777 are written \<open>0x1ED\<close> and \<open>0x1FF\<close>.
\<close>

datatype node = File int string | Directory int

type_synonym fpath = "bool \<times> string list"

record filesys =
  nodes :: "fpath \<Rightarrow> node option"
  umask :: int
  dir_size :: int

datatype errno = ENOENT | ENOTDIR | EISDIR | EINVAL | EEXIST | ENAMETOOLONG

fun errno_text :: "errno \<Rightarrow> string" where
  "errno_text ENOENT = ''no such file or directory''"
| "errno_text ENOTDIR = ''not a directory''"
| "errno_text EISDIR = ''is a directory''"
| "errno_text EINVAL = ''invalid argument''"
| "errno_text EEXIST = ''file exists''"
| "errno_text ENAMETOOLONG = ''file name too long''"

definition PathError :: "string \<Rightarrow> string \<Rightarrow> errno \<Rightarrow> string" where
  "PathError op path e = op @ '' '' @ path @ '': '' @ errno_text e"

definition NAME_MAX :: nat where
  "NAME_MAX = 255"

definition PATH_MAX :: nat where
  "PATH_MAX = 4096"

text \<open>The position that a path names when every directory on the way exists.\<close>

definition elems :: "string \<Rightarrow> string list" where
  "elems path = foldl (clean_elem (IsAbs path)) [] (Split path ''/'')"


definition anchor :: "fpath \<Rightarrow> bool" where
  "anchor p = list_all (\<lambda>e. e = ''..'') (snd p)"

definition node_at :: "filesys \<Rightarrow> fpath \<Rightarrow> node option" where
  "node_at fs p = (if anchor p then Some (Directory 0x1ED) else nodes fs p)"

definition put :: "filesys \<Rightarrow> fpath \<Rightarrow> node \<Rightarrow> filesys" where
  "put fs p n = fs\<lparr>nodes := (nodes fs)(p \<mapsto> n)\<rparr>"

text \<open>
  The system follows a path element by element. An empty element changes nothing. Every
  other element is looked up in the position reached so far, which must be a directory:
  \<open>.\<close> stays there, \<open>..\<close> goes to its parent, and a name, of \<open>NAME_MAX\<close> bytes at most,
  goes to the entry of that name, which may be missing if nothing but empty elements
  follows. The result is the position reached, with the node there if there is one.
\<close>

function walk :: "filesys \<Rightarrow> fpath \<Rightarrow> string list \<Rightarrow> errno + fpath \<times> node option"
  where
  "walk fs cur [] = Inr (cur, node_at fs cur)"
| "walk fs cur (c # cs) =
     (if c = [] then walk fs cur cs
      else case node_at fs cur of
             None \<Rightarrow> Inl ENOENT
           | Some (File m b) \<Rightarrow> Inl ENOTDIR
           | Some (Directory m) \<Rightarrow>
               if c = ''.'' then walk fs cur cs
               else if c = ''..'' then walk fs (fst cur, clean_elem (fst cur) (snd cur) c) cs
               else if NAME_MAX < length c then Inl ENAMETOOLONG
               else walk fs (fst cur, snd cur @ [c]) cs)"
  by pat_completeness auto
termination
  by (relation "measure (\<lambda>(fs, cur, cs). length cs)") simp_all

definition reach :: "filesys \<Rightarrow> string \<Rightarrow> errno + fpath \<times> node option" where
  "reach fs path =
     (if path = [] then Inl ENOENT
      else if PATH_MAX \<le> length path then Inl ENAMETOOLONG
      else walk fs (IsAbs path, []) (Split path ''/''))"

text \<open>
  \<open>os.Stat\<close>, and \<open>os.Open\<close> followed by \<open>Stat\<close> on the open file: the node that the
  path names. A path that ends in a slash names a directory only.
\<close>

definition lookup :: "filesys \<Rightarrow> string \<Rightarrow> errno + node" where
  "lookup fs path =
     (case reach fs path of
        Inl e \<Rightarrow> Inl e
      | Inr (p, None) \<Rightarrow> Inl ENOENT
      | Inr (p, Some (Directory m)) \<Rightarrow> Inr (Directory m)
      | Inr (p, Some (File m b)) \<Rightarrow>
          if HasSuffix path ''/'' then Inl ENOTDIR else Inr (File m b))"

text \<open>\<open>os.Mkdir\<close>: one directory, in a directory that exists.\<close>

definition Mkdir :: "filesys \<Rightarrow> string \<Rightarrow> int \<Rightarrow> errno + filesys" where
  "Mkdir fs path perm =
     (case reach fs path of
        Inl e \<Rightarrow> Inl e
      | Inr (p, Some n) \<Rightarrow> Inl EEXIST
      | Inr (p, None) \<Rightarrow> Inr (put fs p (Directory (perm AND NOT (umask fs)))))"

text \<open>
  \<open>os.MkdirAll\<close>, as package \<open>os\<close> writes it: nothing to do for a directory that is
  there; otherwise the parent first (the path up to and with the slash before its last
  element), then \<open>Mkdir\<close>, whose error stands unless the directory is there after all.
  It returns the error, if any, and the tree as it leaves it.
\<close>

definition parent_of :: "string \<Rightarrow> string" where
  "parent_of path =
     rev (dropWhile (\<lambda>c. c \<noteq> CHR ''/'') (dropWhile (\<lambda>c. c = CHR ''/'') (rev path)))"

lemma dropWhile_twice_shorter:
  assumes "dropWhile (\<lambda>x. \<not> P x) (dropWhile P xs) \<noteq> []"
  shows "length (dropWhile (\<lambda>x. \<not> P x) (dropWhile P xs)) < length xs"
proof (cases "dropWhile P xs")
  case Nil
  with assms show ?thesis by simp
next
  case (Cons c cs)
  then have "\<not> P c" using hd_dropWhile[of P xs] by simp
  then have "length (dropWhile (\<lambda>x. \<not> P x) (c # cs)) \<le> length cs"
    using length_dropWhile_le[of "\<lambda>x. \<not> P x" cs] by simp
  moreover have "length (c # cs) \<le> length xs"
    using length_dropWhile_le[of P xs] unfolding Cons .
  ultimately show ?thesis unfolding Cons by simp
qed

lemma parent_of_shorter: "parent_of path \<noteq> [] \<Longrightarrow> length (parent_of path) < length path"
proof -
  assume "parent_of path \<noteq> []"
  then have "dropWhile (\<lambda>c. c \<noteq> CHR ''/'') (dropWhile (\<lambda>c. c = CHR ''/'') (rev path)) \<noteq> []"
    unfolding parent_of_def rev_is_Nil_conv .
  from dropWhile_twice_shorter[of "\<lambda>c. c = CHR ''/''" "rev path", OF this]
  show ?thesis unfolding parent_of_def length_rev .
qed

function MkdirAll :: "filesys \<Rightarrow> string \<Rightarrow> int \<Rightarrow> string option \<times> filesys" where
  "MkdirAll fs path perm =
     (case lookup fs path of
        Inr (Directory m) \<Rightarrow> (None, fs)
      | Inr (File m b) \<Rightarrow> (Some (PathError ''mkdir'' path ENOTDIR), fs)
      | Inl e \<Rightarrow>
          (case (if parent_of path = [] then (None, fs)
                 else MkdirAll fs (parent_of path) perm) of
             (Some err, fs1) \<Rightarrow> (Some err, fs1)
           | (None, fs1) \<Rightarrow>
               (case Mkdir fs1 path perm of
                  Inr fs2 \<Rightarrow> (None, fs2)
                | Inl e1 \<Rightarrow>
                    (case lookup fs1 path of
                       Inr (Directory m) \<Rightarrow> (None, fs1)
                     | _ \<Rightarrow> (Some (PathError ''mkdir'' path e1), fs1)))))"
  by pat_completeness auto
termination
  by (relation "measure (\<lambda>(fs, path, perm). length path)") (auto intro: parent_of_shorter)

declare MkdirAll.simps [simp del]

text \<open>
  \<open>os.OpenFile(path, O_CREATE|O_WRONLY|O_TRUNC, perm)\<close>: an existing file is emptied and
  keeps its mode; a missing one is created, empty, in an existing directory, with the
  permission bits less the mask. It returns the position of the file that is open.
\<close>

definition OpenFile_create_trunc ::
  "filesys \<Rightarrow> string \<Rightarrow> int \<Rightarrow> string + fpath \<times> filesys" where
  "OpenFile_create_trunc fs path perm =
     (case reach fs path of
        Inl e \<Rightarrow> Inl (PathError ''open'' path e)
      | Inr (p, Some (Directory m)) \<Rightarrow> Inl (PathError ''open'' path EISDIR)
      | Inr (p, Some (File m b)) \<Rightarrow>
          if HasSuffix path ''/'' then Inl (PathError ''open'' path ENOTDIR)
          else Inr (p, put fs p (File m []))
      | Inr (p, None) \<Rightarrow>
          if HasSuffix path ''/'' then Inl (PathError ''open'' path EISDIR)
          else Inr (p, put fs p (File (perm AND NOT (umask fs)) [])))"

text \<open>Writing to the file that is open: \<open>io.Copy(f, tr)\<close> and \<open>f.Close()\<close>.\<close>

definition write_all :: "filesys \<Rightarrow> fpath \<Rightarrow> string \<Rightarrow> filesys" where
  "write_all fs p content =
     (case nodes fs p of
        Some (File m b) \<Rightarrow> put fs p (File m (b @ content))
      | _ \<Rightarrow> fs)"







section \<open>Tar archives (what archive/tar and compress/gzip do for the calls of the code)\<close>

text \<open>
  An archive is the sequence of headers with their bodies that a \<open>tar.Writer\<close> was given,
  which is the sequence that a \<open>tar.Reader\<close> returns, \<open>gzipped\<close> telling whether the stream
  went through gzip; \<open>ending\<close> is the error on which a damaged stream ends. Modification
  times are zero throughout and are left out, as are the end-of-archive blocks and the
  gzip trailer that closing the writers always adds.
\<close>

record tar_header =
  hdr_Typeflag :: char
  hdr_Name :: string
  hdr_Mode :: int
  hdr_Size :: int

type_synonym tar_entry = "tar_header \<times> string"

record archive =
  gzipped :: bool
  entries :: "tar_entry list"
  ending :: "string option"

definition TypeReg :: char where "TypeReg = CHR ''0''"
definition TypeRegA :: char where "TypeRegA = CHR 0x00"
definition TypeDir :: char where "TypeDir = CHR ''5''"

text \<open>
  Writer and reader replace the legacy flag \<open>TypeRegA\<close> (the zero value, which
  \<open>addFileToTar\<close> leaves in its header) by \<open>TypeDir\<close> for a name ending in a slash and
  by \<open>TypeReg\<close> otherwise.
\<close>

definition promote :: "tar_header \<Rightarrow> tar_header" where
  "promote hdr =
     (if hdr_Typeflag hdr = TypeRegA
      then hdr\<lparr>hdr_Typeflag := (if HasSuffix (hdr_Name hdr) ''/'' then TypeDir else TypeReg)\<rparr>
      else hdr)"

text \<open>
  \<open>WriteHeader\<close> takes a header that one of the formats can hold. USTAR holds a name
  that is ASCII in the sense of \<open>archive/tar\<close> (no byte from \<open>0x80\<close> on and no NUL) and
  fits in 100 bytes or splits at a slash into at most 155 and 100; PAX and GNU hold a name
  of any length without a NUL byte. So a name with a NUL byte is refused. The reasons that
  \<open>archive/tar\<close> appends to the message of its error are left out.
\<close>

definition isASCII :: "string \<Rightarrow> bool" where
  "isASCII s = list_all (\<lambda>c. (of_char c :: nat) < 0x80 \<and> c \<noteq> CHR 0x00) s"

definition splitUSTARPath_ok :: "string \<Rightarrow> bool" where
  "splitUSTARPath_ok name =
     (if length name \<le> 100 \<or> \<not> isASCII name then False
      else
        let len = (if 156 < length name then 156
                   else if last name = CHR ''/'' then length name - 1
                   else length name);
            pre = rev (dropWhile (\<lambda>c. c \<noteq> CHR ''/'') (rev (take len name)));
            i = length pre - 1;
            nlen = length name - i - 1
        in \<not> (pre = [] \<or> i = 0 \<or> 100 < nlen \<or> nlen = 0 \<or> 155 < i))"

definition hasNUL :: "string \<Rightarrow> bool" where
  "hasNUL s = (CHR 0x00 \<in> set s)"

definition encodable :: "string \<Rightarrow> bool" where
  "encodable name =
     ((isASCII name \<and> (length name \<le> 100 \<or> splitUSTARPath_ok name)) \<or> \<not> hasNUL name)"

definition isHeaderOnlyType :: "char \<Rightarrow> bool" where
  "isHeaderOnlyType flag = (flag \<in> set ''123456'')"

definition WriteHeader :: "tar_entry list \<Rightarrow> tar_header \<Rightarrow> string + tar_entry list" where
  "WriteHeader tw hdr =
     (if encodable (hdr_Name hdr) then Inr (tw @ [(promote hdr, [])])
      else Inl ''archive/tar: cannot encode header'')"

text \<open>Writing a body to the entry whose header was written last.\<close>

definition Write_body :: "tar_entry list \<Rightarrow> string \<Rightarrow> string + tar_entry list" where
  "Write_body tw content =
     (case rev tw of
        [] \<Rightarrow> Inl ''archive/tar: write too long''
      | (hdr, body) # front \<Rightarrow>
          if int (length content) \<le>
             (if isHeaderOnlyType (hdr_Typeflag hdr) then 0 else hdr_Size hdr)
          then Inr (rev front @ [(hdr, body @ content)])
          else Inl ''archive/tar: write too long'')"

section \<open>Packing (pkg/pack/pack.go)\<close>

fun collectDirs_parts ::
  "nat \<Rightarrow> string \<Rightarrow> string list \<Rightarrow> string set \<times> string list \<Rightarrow> string set \<times> string list"
  where
  "collectDirs_parts i b [] (seen, result) = (seen, result)"
| "collectDirs_parts i b (part # parts) (seen, result) =
     (let d = (if 0 < i then b @ ''/'' else b) @ part
      in collectDirs_parts (Suc i) d parts
           (if d \<notin> seen then (insert d seen, result @ [d]) else (seen, result)))"

fun collectDirs_loop ::
  "string list \<Rightarrow> string set \<times> string list \<Rightarrow> string set \<times> string list" where
  "collectDirs_loop [] st = st"
| "collectDirs_loop (p # ps) st =
     (let dir = filepath_Dir p
      in if dir = ''.'' then collectDirs_loop ps st
         else collectDirs_loop ps (collectDirs_parts 0 [] (Split dir ''/'') st))"

definition collectDirs :: "string list \<Rightarrow> string list" where
  "collectDirs filePaths = snd (collectDirs_loop filePaths ({}, []))"

definition addFileToTar ::
  "filesys \<Rightarrow> tar_entry list \<Rightarrow> string \<Rightarrow> string \<Rightarrow> string option \<times> tar_entry list" where
  "addFileToTar fs tw absPath relPath =
     (case lookup fs absPath of
        Inl e \<Rightarrow> (Some (''open '' @ relPath @ '': '' @ PathError ''open'' absPath e), tw)
      | Inr info \<Rightarrow>
          let hdr = \<lparr>hdr_Typeflag = TypeRegA, hdr_Name = relPath,
                     hdr_Mode = (case info of File m c \<Rightarrow> m | Directory m \<Rightarrow> m) AND 0x1FF,
                     hdr_Size = (case info of File m c \<Rightarrow> int (length c)
                                 | Directory m \<Rightarrow> dir_size fs)\<rparr>
          in case WriteHeader tw hdr of
               Inl e \<Rightarrow> (Some (''write header '' @ relPath @ '': '' @ e), tw)
             | Inr tw1 \<Rightarrow>
                 (case info of
                    Directory m \<Rightarrow>
                      (Some (''write body '' @ relPath @ '': '' @ PathError ''read'' absPath EISDIR),
                       tw1)
                  | File m c \<Rightarrow>
                      (case Write_body tw1 c of
                         Inl e \<Rightarrow> (Some (''write body '' @ relPath @ '': '' @ e), tw1)
                       | Inr tw2 \<Rightarrow> (None, tw2))))"

fun write_dir_headers :: "tar_entry list \<Rightarrow> string list \<Rightarrow> string option \<times> tar_entry list"
  where
  "write_dir_headers tw [] = (None, tw)"
| "write_dir_headers tw (d # dirs) =
     (case WriteHeader tw \<lparr>hdr_Typeflag = TypeDir, hdr_Name = d @ ''/'',
                            hdr_Mode = 0x1ED, hdr_Size = 0\<rparr> of
        Inl e \<Rightarrow> (Some (''write dir header: '' @ e), tw)
      | Inr tw' \<Rightarrow> write_dir_headers tw' dirs)"

fun pack_files ::
  "filesys \<Rightarrow> string \<Rightarrow> tar_entry list \<Rightarrow> nat \<Rightarrow> string list \<Rightarrow> (string + nat) \<times> tar_entry list"
  where
  "pack_files fs dir tw count [] = (Inr count, tw)"
| "pack_files fs dir tw count (rel # rest) =
     (case ValidateRelPath rel of
        Some err \<Rightarrow> (Inl (''invalid path '' @ rel @ '': '' @ err), tw)
      | None \<Rightarrow>
          let abs = filepath_Join dir rel in
          if \<not> IsWithinDir dir abs then (Inl (''path escapes dir: '' @ rel), tw)
          else case addFileToTar fs tw abs rel of
                 (Some err, tw') \<Rightarrow> (Inl err, tw')
               | (None, tw') \<Rightarrow> pack_files fs dir tw' (Suc count) rest)"

text \<open>
  \<open>PackTar\<close> reads the files in \<open>fs\<close>. It returns the count or the error, and the archive
  that the writer \<open>w\<close> has received when it returns.
\<close>

definition PackTar ::
  "filesys \<Rightarrow> string \<Rightarrow> string list \<Rightarrow> bool \<Rightarrow> (string + nat) \<times> archive" where
  "PackTar fs dir filePaths compress =
     (case write_dir_headers [] (collectDirs filePaths) of
        (Some err, tw) \<Rightarrow> (Inl err, \<lparr>gzipped = compress, entries = tw, ending = None\<rparr>)
      | (None, tw) \<Rightarrow>
          (case pack_files fs dir tw 0 filePaths of
             (res, tw') \<Rightarrow> (res, \<lparr>gzipped = compress, entries = tw', ending = None\<rparr>)))"

section \<open>Unpacking (pkg/pack/unpack.go)\<close>

definition validateTarPath :: "string \<Rightarrow> string option" where
  "validateTarPath name =
     (if name = [] \<or> name = ''.'' then None
      else if IsAbs name then Some (''absolute path in tar: '' @ name)
      else if Contains name ''..'' \<and> ''..'' \<in> set (Split name ''/'')
        then Some (''path traversal in tar: '' @ name)
      else None)"

definition isWithinDir :: "string \<Rightarrow> string \<Rightarrow> bool" where
  "isWithinDir dir full =
     (case filepath_Rel dir full of
        None \<Rightarrow> False
      | Some rel \<Rightarrow> rel \<noteq> ''..'' \<and> \<not> HasPrefix rel ''../'' \<and> \<not> IsAbs rel)"

definition extractFile ::
  "filesys \<Rightarrow> string \<Rightarrow> string \<Rightarrow> tar_header \<Rightarrow> string option \<times> filesys" where
  "extractFile fs body target hdr =
     (case MkdirAll fs (filepath_Dir target) 0x1ED of
        (Some e, fs1) \<Rightarrow> (Some (''mkdir parent: '' @ e), fs1)
      | (None, fs1) \<Rightarrow>
          (case OpenFile_create_trunc fs1 target (hdr_Mode hdr AND 0x1FF) of
             Inl e \<Rightarrow> (Some (''create '' @ hdr_Name hdr @ '': '' @ e), fs1)
           | Inr (f, fs2) \<Rightarrow> (None, write_all fs2 f body)))"

fun unpack_loop ::
  "filesys \<Rightarrow> string \<Rightarrow> nat \<Rightarrow> tar_entry list \<Rightarrow> string option \<Rightarrow>
     (nat \<times> string option) \<times> filesys" where
  "unpack_loop fs dir count [] eof =
     ((count, map_option (\<lambda>e. ''read tar: '' @ e) eof), fs)"
| "unpack_loop fs dir count ((hdr0, body) # rest) eof =
     (let hdr = promote hdr0; name = Clean (hdr_Name hdr) in
      case validateTarPath name of
        Some err \<Rightarrow> ((count, Some err), fs)
      | None \<Rightarrow>
          let target = filepath_Join dir name in
          if \<not> isWithinDir dir target then ((count, Some (''path escapes dir: '' @ name)), fs)
          else if hdr_Typeflag hdr = TypeDir then
            (case MkdirAll fs target 0x1ED of
               (Some e, fs') \<Rightarrow> ((count, Some (''mkdir '' @ name @ '': '' @ e)), fs')
             | (None, fs') \<Rightarrow> unpack_loop fs' dir count rest eof)
          else if hdr_Typeflag hdr = TypeReg then
            (case extractFile fs body target hdr of
               (Some err, fs') \<Rightarrow> ((count, Some err), fs')
             | (None, fs') \<Rightarrow> unpack_loop fs' dir (Suc count) rest eof)
          else unpack_loop fs dir count rest eof)"

text \<open>
  \<open>UnpackTar\<close> returns the count, the error if any, and the file system it leaves. A stream
  that is not what \<open>compress\<close> announces is refused by the gzip or the tar reader.
\<close>

definition UnpackTar ::
  "filesys \<Rightarrow> archive \<Rightarrow> string \<Rightarrow> bool \<Rightarrow> (nat \<times> string option) \<times> filesys" where
  "UnpackTar fs r dir compress =
     (case MkdirAll fs dir 0x1ED of
        (Some e, fs1) \<Rightarrow> ((0, Some (''create dir: '' @ e)), fs1)
      | (None, fs1) \<Rightarrow>
          if compress \<and> \<not> gzipped r then ((0, Some ''gzip reader: gzip: invalid header''), fs1)
          else if \<not> compress \<and> gzipped r
            then ((0, Some ''read tar: archive/tar: invalid tar header''), fs1)
          else unpack_loop fs1 dir 0 (entries r) (ending r))"

section \<open>The delete request of the agent (cmd/spryncd/main.go)\<close>










text \<open>Example trees.\<close>

definition fs_of :: "(fpath \<times> node) list \<Rightarrow> filesys" where
  "fs_of kvs = \<lparr>nodes = map_of kvs, umask = 0x12, dir_size = 4096\<rparr>"

definition src_tree :: filesys where
  "src_tree = fs_of
     [((True, [''r'']), Directory 0x1ED),
      ((True, [''r'', ''a'']), File 0x1A4 ''hello''),
      ((True, [''r'', ''bar'']), File 0x1B6 ''bar''),
      ((True, [''r'', ''ok'']), Directory 0x1ED),
      ((True, [''r'', ''ok'', ''a.txt'']), File 0x1ED ''A'')]"

section \<open>Splitting at slashes\<close>

text \<open>The elements of a string between its slashes, by recursion on the string.\<close>

fun segs :: "string \<Rightarrow> string list" where
  "segs [] = [[]]"
| "segs (c # cs) =
     (if c = CHR ''/'' then [] # segs cs else (c # hd (segs cs)) # tl (segs cs))"

lemma segs_nonempty [simp]: "segs s \<noteq> []"
  by (induction s) auto

lemma Cut_slash_None: "CHR ''/'' \<notin> set s \<Longrightarrow> Cut s ''/'' = None"
  by (induction s) auto

lemma Cut_slash_Some:
  "CHR ''/'' \<in> set s \<Longrightarrow>
   Cut s ''/'' = Some (takeWhile (\<lambda>c. c \<noteq> CHR ''/'') s, tl (dropWhile (\<lambda>c. c \<noteq> CHR ''/'') s))"
  by (induction s) (auto simp: Cut_slash_None)

lemma segs_no_slash: "CHR ''/'' \<notin> set s \<Longrightarrow> segs s = [s]"
  by (induction s) auto

lemma segs_slash:
  "CHR ''/'' \<in> set s \<Longrightarrow>
   segs s = takeWhile (\<lambda>c. c \<noteq> CHR ''/'') s # segs (tl (dropWhile (\<lambda>c. c \<noteq> CHR ''/'') s))"
  by (induction s) (auto simp: segs_no_slash)

lemma Split_slash: "Split s ''/'' = segs s"
proof (induction s "''/''" rule: Split.induct)
  case (1 s)
  show ?case
  proof (cases "CHR ''/'' \<in> set s")
    case False
    then show ?thesis
      by (subst Split.simps) (simp add: Cut_slash_None segs_no_slash)
  next
    case True
    note c = Cut_slash_Some[OF True]
    have "Split s ''/'' = takeWhile (\<lambda>c. c \<noteq> CHR ''/'') s #
        Split (tl (dropWhile (\<lambda>c. c \<noteq> CHR ''/'') s)) ''/''"
      by (subst Split.simps) (simp add: c)
    also have "Split (tl (dropWhile (\<lambda>c. c \<noteq> CHR ''/'') s)) ''/'' =
        segs (tl (dropWhile (\<lambda>c. c \<noteq> CHR ''/'') s))"
      using "1.hyps"[OF _ c refl] by simp
    finally show ?thesis
      by (simp add: segs_slash[OF True])
  qed
qed

lemma segs_append_slash: "segs (a @ CHR ''/'' # b) = segs a @ segs b"
  by (induction a) (auto simp: neq_Nil_conv)

lemma segs_append_no_slash:
  "CHR ''/'' \<notin> set t \<Longrightarrow> segs (s @ t) = butlast (segs s) @ [last (segs s) @ t]"
proof (induction s)
  case Nil
  then show ?case by (simp add: segs_no_slash)
next
  case (Cons c s)
  then show ?case
    by (cases "segs s") (auto simp: butlast_append)
qed

lemma segs_elem_no_slash: "e \<in> set (segs s) \<Longrightarrow> CHR ''/'' \<notin> set e"
proof (induction s arbitrary: e)
  case Nil
  then show ?case by simp
next
  case (Cons c s)
  then show ?case
    by (cases "segs s") (auto split: if_splits)
qed

lemma Join_Cons: "xs \<noteq> [] \<Longrightarrow> Join (x # xs) sep = x @ sep @ Join xs sep"
  by (cases xs) simp_all

lemma Join_segs: "Join (segs s) ''/'' = s"
proof (induction s)
  case Nil
  then show ?case by simp
next
  case (Cons c s)
  then show ?case
    by (cases "segs s"; cases "tl (segs s)") (auto simp: Join_Cons)
qed

lemma segs_Join:
  "xs \<noteq> [] \<Longrightarrow> \<forall>e \<in> set xs. CHR ''/'' \<notin> set e \<Longrightarrow> segs (Join xs ''/'') = xs"
proof (induction xs rule: list_nonempty_induct)
  case (single x)
  then show ?case by (simp add: segs_no_slash)
next
  case (cons x xs)
  then show ?case
    by (simp add: Join_Cons segs_append_slash segs_no_slash)
qed

lemma Join_append:
  "xs \<noteq> [] \<Longrightarrow> ys \<noteq> [] \<Longrightarrow> Join (xs @ ys) sep = Join xs sep @ sep @ Join ys sep"
  by (induction xs rule: list_nonempty_induct) (simp_all add: Join_Cons)

lemma Join_snoc: "xs \<noteq> [] \<Longrightarrow> Join (xs @ [y]) sep = Join xs sep @ sep @ y"
  by (simp add: Join_append)

lemma last_segs_strip:
  "rev (dropWhile (\<lambda>c. c \<noteq> CHR ''/'') (rev p)) @ last (segs p) = p"
proof (induction p rule: rev_induct)
  case Nil
  then show ?case by simp
next
  case (snoc c p)
  show ?case
  proof (cases "c = CHR ''/''")
    case True
    then show ?thesis
      using segs_append_slash[of p "[]"] by simp
  next
    case False
    then have "segs (p @ [c]) = butlast (segs p) @ [last (segs p) @ [c]]"
      by (simp add: segs_append_no_slash)
    with False snoc show ?thesis by simp
  qed
qed

lemma segs_strip:
  assumes "CHR ''/'' \<in> set p"
  shows "segs (rev (dropWhile (\<lambda>c. c \<noteq> CHR ''/'') (rev p))) = butlast (segs p) @ [[]]"
  using assms
proof (induction p rule: rev_induct)
  case Nil
  then show ?case by simp
next
  case (snoc c p)
  show ?case
  proof (cases "c = CHR ''/''")
    case True
    then show ?thesis
      using segs_append_slash[of p "[]"] by simp
  next
    case False
    with snoc.prems have in_p: "CHR ''/'' \<in> set p" by simp
    from False have "segs (p @ [c]) = butlast (segs p) @ [last (segs p) @ [c]]"
      by (simp add: segs_append_no_slash)
    moreover have "segs p = butlast (segs p) @ [last (segs p)]" by simp
    ultimately show ?thesis
      using False snoc.IH[OF in_p] by (simp add: butlast_append)
  qed
qed

lemma strip_no_slash:
  "CHR ''/'' \<notin> set p \<Longrightarrow> rev (dropWhile (\<lambda>c. c \<noteq> CHR ''/'') (rev p)) = []"
  by (auto simp: dropWhile_eq_Nil_conv)

section \<open>Cleaning\<close>

text \<open>
  \<open>render\<close> writes a rooted flag and a list of elements as a path. A list of elements is
  \<open>plain\<close> when every element is a name: not empty, not \<open>.\<close>, not \<open>..\<close>, without a slash.
\<close>

definition render :: "bool \<Rightarrow> string list \<Rightarrow> string" where
  "render r es = (if r then ''/'' @ Join es ''/'' else if es = [] then ''.'' else Join es ''/'')"

definition name_elem :: "string \<Rightarrow> bool" where
  "name_elem e \<longleftrightarrow> e \<noteq> [] \<and> e \<noteq> ''.'' \<and> e \<noteq> ''..'' \<and> CHR ''/'' \<notin> set e"

definition plain :: "string list \<Rightarrow> bool" where
  "plain es \<longleftrightarrow> list_all name_elem es"

definition dotted :: "string list \<Rightarrow> bool" where
  "dotted es \<longleftrightarrow> es \<noteq> [] \<and> hd es = ''..''"

lemma clean_elem_skip: "e = [] \<or> e = ''.'' \<Longrightarrow> clean_elem r out e = out"
  by auto



lemma clean_elem_root: "clean_elem True [] ''..'' = []"
  by simp

lemma clean_elem_name:
  "e \<noteq> [] \<Longrightarrow> e \<noteq> ''.'' \<Longrightarrow> e \<noteq> ''..'' \<Longrightarrow> clean_elem r out e = out @ [e]"
  by simp

declare clean_elem.simps [simp del]

lemma elems_Nil [simp]: "elems [] = []"
  by (simp add: elems_def Split_slash clean_elem_skip)

lemma elems_segs: "elems p = foldl (clean_elem (IsAbs p)) [] (segs p)"
  by (simp add: elems_def Split_slash)

lemma Clean_render: "Clean p = render (IsAbs p) (elems p)"
proof (cases "p = []")
  case True
  then show ?thesis
    by (simp add: Clean_def render_def IsAbs_def HasPrefix_def)
next
  case False
  then show ?thesis
    by (simp add: Clean_def render_def elems_def Let_def)
qed

lemma plain_append [simp]: "plain (xs @ ys) \<longleftrightarrow> plain xs \<and> plain ys"
  by (simp add: plain_def)

lemma plain_Nil [simp]: "plain []"
  by (simp add: plain_def)

lemma plain_single [simp]: "plain [e] \<longleftrightarrow> name_elem e"
  by (simp add: plain_def)

lemma plain_butlast: "plain xs \<Longrightarrow> plain (butlast xs)"
  by (induction xs) (auto simp: plain_def)

lemma plain_last: "plain xs \<Longrightarrow> xs \<noteq> [] \<Longrightarrow> name_elem (last xs)"
  by (induction xs) (auto simp: plain_def)

lemma plain_take: "plain xs \<Longrightarrow> plain (take n xs)"
  by (metis append_take_drop_id plain_append)

text \<open>One step keeps a stack plain or dotted; a dotted stack stays dotted.\<close>

lemma clean_elem_cases:
  obtains (skip) "e = [] \<or> e = ''.''" "clean_elem r out e = out"
  | (pop) "e = ''..''" "out \<noteq> []" "last out \<noteq> ''..''" "clean_elem r out e = butlast out"
  | (root) "e = ''..''" "out = [] \<or> last out = ''..''" "r" "clean_elem r out e = out"
  | (push) "e = ''..''" "out = [] \<or> last out = ''..''" "\<not> r"
      "clean_elem r out e = out @ [''..'']"
  | (name) "e \<noteq> []" "e \<noteq> ''.''" "e \<noteq> ''..''" "clean_elem r out e = out @ [e]"
proof -
  consider "e = [] \<or> e = ''.''" | "e = ''..''" "out \<noteq> []" "last out \<noteq> ''..''"
    | "e = ''..''" "out = [] \<or> last out = ''..''" "r"
    | "e = ''..''" "out = [] \<or> last out = ''..''" "\<not> r"
    | "e \<noteq> []" "e \<noteq> ''.''" "e \<noteq> ''..''"
    by blast
  then show thesis
  proof cases
    case 1
    then show ?thesis by (intro skip) (auto simp: clean_elem.simps)
  next
    case 2
    then show ?thesis by (intro pop) (auto simp: clean_elem.simps)
  next
    case 3
    then show ?thesis by (intro root) (auto simp: clean_elem.simps)
  next
    case 4
    then show ?thesis by (intro push) (auto simp: clean_elem.simps)
  next
    case 5
    then show ?thesis by (intro name) (auto simp: clean_elem.simps)
  qed
qed

lemma clean_elem_dotted: "dotted out \<Longrightarrow> dotted (clean_elem r out e)"
proof (cases rule: clean_elem_cases[of e r out])
  case pop
  assume d: "dotted out"
  with pop have "butlast out \<noteq> []"
    by (cases out rule: rev_cases) (auto simp: dotted_def)
  with d pop show ?thesis
    by (cases out rule: rev_cases) (auto simp: dotted_def hd_append)
qed (auto simp: dotted_def hd_append)

lemma clean_elem_plain_or_dotted:
  assumes "plain out \<or> dotted out" and "CHR ''/'' \<notin> set e"
  shows "plain (clean_elem False out e) \<or> dotted (clean_elem False out e)"
proof (cases "dotted out")
  case True
  then have "dotted (clean_elem False out e)" by (rule clean_elem_dotted)
  then show ?thesis ..
next
  case False
  with assms(1) have p: "plain out" by simp
  show ?thesis
  proof (cases rule: clean_elem_cases[of e False out])
    case skip
    with p show ?thesis by simp
  next
    case pop
    with p show ?thesis by (simp add: plain_butlast)
  next
    case root
    then show ?thesis by simp
  next
    case push
    with p have "out = []"
      using plain_last[of out] by (auto simp: name_elem_def)
    with push show ?thesis by (simp add: dotted_def)
  next
    case name
    with p assms(2) show ?thesis by (simp add: name_elem_def)
  qed
qed

lemma foldl_dotted: "dotted out \<Longrightarrow> dotted (foldl (clean_elem r) out xs)"
  by (induction xs arbitrary: out) (simp_all add: clean_elem_dotted)

lemma foldl_plain_or_dotted:
  assumes "plain out \<or> dotted out" and "\<forall>e \<in> set xs. CHR ''/'' \<notin> set e"
  shows "plain (foldl (clean_elem False) out xs) \<or> dotted (foldl (clean_elem False) out xs)"
  using assms
proof (induction xs arbitrary: out)
  case Nil
  then show ?case by simp
next
  case (Cons e xs)
  have "plain (clean_elem False out e) \<or> dotted (clean_elem False out e)"
    using Cons.prems by (intro clean_elem_plain_or_dotted) simp_all
  from Cons.IH[OF this] Cons.prems(2) show ?case
    by simp
qed

lemma dotted_not_plain: "dotted es \<Longrightarrow> \<not> plain es"
  by (cases es) (auto simp: dotted_def plain_def name_elem_def)

text \<open>
  If the stack of a relative path is not dotted at the end, it was plain after every
  element.
\<close>

lemma foldl_intermediate_plain:
  assumes "\<not> dotted (foldl (clean_elem False) [] (xs @ ys))"
    and "\<forall>e \<in> set (xs @ ys). CHR ''/'' \<notin> set e"
  shows "plain (foldl (clean_elem False) [] xs)"
proof -
  have "plain (foldl (clean_elem False) [] xs) \<or> dotted (foldl (clean_elem False) [] xs)"
    using assms(2) by (intro foldl_plain_or_dotted) simp_all
  moreover have "\<not> dotted (foldl (clean_elem False) [] xs)"
    using assms(1) foldl_dotted[of "foldl (clean_elem False) [] xs" False ys] by auto
  ultimately show ?thesis by simp
qed


text \<open>
  A stack is \<open>normal\<close> when it is a run of \<open>..\<close> (none in a rooted path) followed by
  names. Cleaning builds normal stacks, and a normal stack written as a path is read back
  unchanged.
\<close>

definition normal :: "bool \<Rightarrow> string list \<Rightarrow> bool" where
  "normal r es \<longleftrightarrow> (\<exists>k ns. es = replicate k ''..'' @ ns \<and> plain ns \<and> (r \<longrightarrow> k = 0))"

lemma normal_Nil [simp]: "normal r []"
  by (simp add: normal_def)

lemma normal_plain: "plain es \<Longrightarrow> normal r es"
  unfolding normal_def by (rule exI[of _ 0]) simp





lemma foldl_names: "plain ns \<Longrightarrow> foldl (clean_elem r) S ns = S @ ns"
proof (induction ns arbitrary: S)
  case Nil
  then show ?case by simp
next
  case (Cons e ns)
  then have "clean_elem r S e = S @ [e]"
    by (intro clean_elem_name) (auto simp: plain_def name_elem_def)
  with Cons show ?case by (simp add: plain_def)
qed



lemma plain_elem: "plain ns \<Longrightarrow> e \<in> set ns \<Longrightarrow> name_elem e"
  by (simp add: plain_def list_all_iff)

lemma normal_no_slash:
  assumes "normal r es" and "e \<in> set es"
  shows "CHR ''/'' \<notin> set e \<and> e \<noteq> []"
proof -
  from assms(1) obtain k ns where es: "es = replicate k ''..'' @ ns" and ns: "plain ns"
    unfolding normal_def by blast
  from assms(2) es consider "e = ''..''" | "e \<in> set ns"
    by auto
  then show ?thesis
  proof cases
    case 1
    then show ?thesis by simp
  next
    case 2
    with ns have "name_elem e" by (rule plain_elem)
    then show ?thesis by (simp add: name_elem_def)
  qed
qed

lemma hd_Join: "es \<noteq> [] \<Longrightarrow> hd es \<noteq> [] \<Longrightarrow> hd (Join es sep) = hd (hd es)"
  by (cases es; cases "tl es") (auto simp: Join_Cons)

lemma Join_eq_Nil: "es \<noteq> [] \<Longrightarrow> hd es \<noteq> [] \<Longrightarrow> Join es sep \<noteq> []"
  by (cases es; cases "tl es") (auto simp: Join_Cons)

lemma IsAbs_iff: "IsAbs p \<longleftrightarrow> p \<noteq> [] \<and> hd p = CHR ''/''"
  by (cases p) (auto simp: IsAbs_def HasPrefix_def)

lemma IsAbs_render: "normal r es \<Longrightarrow> IsAbs (render r es) = r"
proof (cases r)
  case True
  then show ?thesis by (simp add: render_def IsAbs_iff)
next
  case False
  assume n: "normal r es"
  show ?thesis
  proof (cases "es = []")
    case True
    with False show ?thesis by (simp add: render_def IsAbs_iff)
  next
    case ne: False
    then have h: "hd es \<noteq> []" "CHR ''/'' \<notin> set (hd es)"
      using normal_no_slash[OF n, of "hd es"] by auto
    then have "hd (hd es) \<noteq> CHR ''/''"
      by (cases "hd es") auto
    with False ne h show ?thesis
      by (simp add: render_def IsAbs_iff hd_Join)
  qed
qed




text \<open>
  A relative path \<open>stays\<close> below the directory it is joined to when its cleaned form is a
  non-empty sequence of names. Valid paths do.
\<close>

definition stays :: "string \<Rightarrow> bool" where
  "stays b \<longleftrightarrow> \<not> IsAbs b \<and> elems b \<noteq> [] \<and> plain (elems b)"

lemma render_dotted:
  "dotted es \<Longrightarrow> render False es = ''..'' \<or> HasPrefix (render False es) ''../''"
  by (cases es; cases "tl es") (auto simp: dotted_def render_def HasPrefix_def Join_Cons)

lemma elems_plain_or_dotted: "\<not> IsAbs p \<Longrightarrow> plain (elems p) \<or> dotted (elems p)"
proof -
  assume a: "\<not> IsAbs p"
  have "plain (foldl (clean_elem False) [] (segs p)) \<or>
      dotted (foldl (clean_elem False) [] (segs p))"
  proof (rule foldl_plain_or_dotted)
    show "plain [] \<or> dotted []" by simp
    show "\<forall>e\<in>set (segs p). CHR ''/'' \<notin> set e"
      by (intro ballI) (rule segs_elem_no_slash)
  qed
  then show ?thesis
    unfolding elems_segs using a by simp
qed

lemma valid_path:
  assumes "ValidateRelPath p = None"
  shows "p \<noteq> []" and "\<not> IsAbs p" and "CHR 0x00 \<notin> set p" and "plain (elems p)"
    and "elems p \<noteq> []" and "Clean p = Join (elems p) ''/''" and "stays p"
proof -
  from assms show ne: "p \<noteq> []" and na: "\<not> IsAbs p" and "CHR 0x00 \<notin> set p"
    by (auto simp: ValidateRelPath_def Let_def split: if_splits)
  from assms have c: "Clean p \<noteq> ''.''" "Clean p \<noteq> ''..''" "\<not> HasPrefix (Clean p) ''../''"
    by (auto simp: ValidateRelPath_def Let_def split: if_splits)
  have r: "Clean p = render False (elems p)"
    using na by (simp add: Clean_render)
  have "\<not> dotted (elems p)"
    using render_dotted[of "elems p"] c r by auto
  with elems_plain_or_dotted[OF na] show pl: "plain (elems p)" by simp
  show e: "elems p \<noteq> []"
    using c r by (auto simp: render_def)
  then show "Clean p = Join (elems p) ''/''"
    using r by (simp add: render_def)
  from na pl e show "stays p" by (simp add: stays_def)
qed

lemma stays_not_dotted: "stays b \<Longrightarrow> \<not> dotted (foldl (clean_elem False) [] (segs b))"
  using dotted_not_plain by (auto simp: stays_def elems_segs)

lemma stays_Clean: "stays b \<Longrightarrow> Clean b = Join (elems b) ''/''"
  by (simp add: stays_def Clean_render render_def)

text \<open>Joining such a path to a directory appends its elements.\<close>

lemma IsAbs_append: "a \<noteq> [] \<Longrightarrow> IsAbs (a @ b) = IsAbs a"
  by (cases a) (auto simp: IsAbs_iff)

lemma elems_slash:
  "a \<noteq> [] \<Longrightarrow> elems (a @ CHR ''/'' # b) = foldl (clean_elem (IsAbs a)) (elems a) (segs b)"
  by (simp add: elems_segs IsAbs_append segs_append_slash)





text \<open>A non-empty sequence of names, joined by slashes, is such a path, and canonical.\<close>

lemma Join_plain_facts:
  assumes "plain es" and "es \<noteq> []"
  shows "Join es ''/'' \<noteq> []" and "\<not> IsAbs (Join es ''/'')" and "segs (Join es ''/'') = es"
    and "Join es ''/'' \<noteq> ''.''" and "Join es ''/'' \<noteq> ''..''"
    and "\<not> HasPrefix (Join es ''/'') ''../''"
proof -
  have n: "normal False es" using assms(1) by (rule normal_plain)
  have r: "render False es = Join es ''/''" using assms(2) by (simp add: render_def)
  have h: "name_elem (hd es)"
    using assms by (cases es) (auto simp: plain_def)
  show "Join es ''/'' \<noteq> []"
    using assms(2) h by (intro Join_eq_Nil) (auto simp: name_elem_def)
  show "\<not> IsAbs (Join es ''/'')"
    using IsAbs_render[OF n] r by simp
  show s: "segs (Join es ''/'') = es"
    using assms(2) normal_no_slash[OF n] by (intro segs_Join) auto
  show "Join es ''/'' \<noteq> ''.''"
  proof
    assume "Join es ''/'' = ''.''"
    with s have "es = [''.'']" by (simp add: segs_no_slash)
    with h show False by (simp add: name_elem_def)
  qed
  show "Join es ''/'' \<noteq> ''..''"
  proof
    assume "Join es ''/'' = ''..''"
    with s have "es = [''..'']" by (simp add: segs_no_slash)
    with h show False by (simp add: name_elem_def)
  qed
  show "\<not> HasPrefix (Join es ''/'') ''../''"
  proof
    assume "HasPrefix (Join es ''/'') ''../''"
    then obtain t where "Join es ''/'' = ''..'' @ CHR ''/'' # t"
      by (auto simp: HasPrefix_def prefix_def)
    then have "segs (Join es ''/'') = segs ''..'' @ segs t"
      by (simp only: segs_append_slash)
    with s have "es = ''..'' # segs t" by (simp add: segs_no_slash)
    then have "hd es = ''..''" by simp
    with h show False by (simp add: name_elem_def)
  qed
qed

lemma Join_plain:
  assumes "plain es" and "es \<noteq> []"
  shows "elems (Join es ''/'') = es" and "Clean (Join es ''/'') = Join es ''/''"
    and "stays (Join es ''/'')"
proof -
  note f = Join_plain_facts[OF assms]
  show e: "elems (Join es ''/'') = es"
    using f(2,3) assms(1) by (simp add: elems_segs foldl_names)
  then show "Clean (Join es ''/'') = Join es ''/''"
    using f(2) assms(2) by (simp add: Clean_render render_def)
  show "stays (Join es ''/'')"
    using e f(2) assms by (simp add: stays_def)
qed

section \<open>Relative paths and containment\<close>









section \<open>Parent directories\<close>

lemma strip_slash_end:
  "rev (dropWhile (\<lambda>c. c \<noteq> CHR ''/'') (rev (s @ CHR ''/'' # l))) =
     (if CHR ''/'' \<in> set l then s @ CHR ''/'' # rev (dropWhile (\<lambda>c. c \<noteq> CHR ''/'') (rev l))
      else s @ ''/'')"
  by (auto simp: dropWhile_append dropWhile_eq_Nil_conv)

lemma elems_trailing_slash: "s \<noteq> [] \<Longrightarrow> elems (s @ ''/'') = elems s"
  using elems_slash[of s "[]"] by (simp add: clean_elem_skip)

text \<open>
  The directory of a path that stays is the stack of cleaning before the last element: a
  sequence of names.
\<close>

lemma Dir_stays:
  assumes "stays p"
  shows "\<exists>S. plain S \<and> filepath_Dir p = render False S \<and>
           (name_elem (last (segs p)) \<longrightarrow> elems p = S @ [last (segs p)])"
proof -
  from assms have na: "\<not> IsAbs p" by (simp add: stays_def)
  let ?xs = "butlast (segs p)" and ?l = "last (segs p)"
  let ?S = "foldl (clean_elem False) [] ?xs"
  have sp: "segs p = ?xs @ [?l]" by simp
  have nd: "\<not> dotted (foldl (clean_elem False) [] (?xs @ [?l]))"
    using stays_not_dotted[OF assms] by simp
  have pl: "plain ?S"
    by (rule foldl_intermediate_plain[OF nd]) (metis sp segs_elem_no_slash)
  have "elems p = foldl (clean_elem False) [] (?xs @ [?l])"
    using na by (simp add: elems_segs)
  then have el: "elems p = clean_elem False ?S ?l"
    by (simp only: foldl_append foldl.simps)
  have last: "name_elem ?l \<longrightarrow> elems p = ?S @ [?l]"
    by (simp add: el clean_elem_name name_elem_def)
  have dir: "filepath_Dir p = render False ?S"
  proof (cases "CHR ''/'' \<in> set p")
    case False
    then have "segs p = [p]" by (rule segs_no_slash)
    then have "?xs = []" by simp
    with False show ?thesis
      by (simp add: filepath_Dir_def strip_no_slash Clean_def render_def)
  next
    case True
    let ?q = "rev (dropWhile (\<lambda>c. c \<noteq> CHR ''/'') (rev p))"
    have q: "segs ?q = ?xs @ [[]]" by (rule segs_strip[OF True])
    have qne: "?q \<noteq> []"
    proof
      assume "?q = []"
      with q have "[[]] = ?xs @ [[]::string]" by simp
      then have "?xs = []" by simp
      then have "segs p = [?l]" using sp by simp
      then have "Join (segs p) ''/'' = ?l" by (metis Join.simps(2))
      then have "p = ?l" by (simp add: Join_segs)
      moreover have "?l \<in> set (segs p)" by simp
      ultimately have "CHR ''/'' \<notin> set p"
        using segs_elem_no_slash[of ?l p] by simp
      with True show False by simp
    qed
    have "IsAbs ?q = IsAbs p"
      using last_segs_strip[of p] IsAbs_append[OF qne, of ?l] by simp
    with na have "elems ?q = ?S"
      by (simp add: elems_segs q clean_elem_skip)
    with na \<open>IsAbs ?q = IsAbs p\<close> show ?thesis
      by (simp add: filepath_Dir_def Clean_render[of ?q])
  qed
  from pl dir last show ?thesis by blast
qed

section \<open>What a successful pack has written\<close>

definition names :: "tar_entry list \<Rightarrow> string list" where
  "names tw = map (\<lambda>e. hdr_Name (fst e)) tw"

lemma names_append [simp]: "names (xs @ ys) = names xs @ names ys"
  by (simp add: names_def)

lemma names_Nil [simp]: "names [] = []"
  by (simp add: names_def)

lemma hdr_Name_promote [simp]: "hdr_Name (promote hdr) = hdr_Name hdr"
  by (simp add: promote_def)

lemma WriteHeader_Inr:
  "WriteHeader tw hdr = Inr tw' \<Longrightarrow> tw' = tw @ [(promote hdr, [])]"
  by (simp add: WriteHeader_def split: if_splits)

lemma Write_body_snoc:
  "Write_body (tw @ [(h, b)]) c = Inr tw' \<Longrightarrow> tw' = tw @ [(h, b @ c)]"
  by (simp add: Write_body_def split: if_splits)

lemma write_dir_headers_names:
  "write_dir_headers tw dirs = (None, tw') \<Longrightarrow>
   \<exists>ds. tw' = tw @ ds \<and> names ds = map (\<lambda>d. d @ ''/'') dirs"
proof (induction dirs arbitrary: tw)
  case Nil
  then show ?case by simp
next
  case (Cons d dirs)
  let ?h = "\<lparr>hdr_Typeflag = TypeDir, hdr_Name = d @ ''/'', hdr_Mode = 0x1ED, hdr_Size = 0\<rparr>"
  from Cons.prems obtain tw1 where w: "WriteHeader tw ?h = Inr tw1"
    and r: "write_dir_headers tw1 dirs = (None, tw')"
    by (auto split: sum.splits)
  from WriteHeader_Inr[OF w] have tw1: "tw1 = tw @ [(promote ?h, [])]" .
  from Cons.IH[OF r] obtain ds where "tw' = tw1 @ ds" "names ds = map (\<lambda>d. d @ ''/'') dirs"
    by blast
  then have "tw' = tw @ ((promote ?h, []) # ds) \<and>
      names ((promote ?h, []) # ds) = map (\<lambda>d. d @ ''/'') (d # dirs)"
    by (simp add: tw1 names_def)
  then show ?case by blast
qed

lemma write_dir_headers_error:
  "write_dir_headers tw dirs = (Some err, tw') \<Longrightarrow> HasPrefix err ''write dir header: ''"
proof (induction dirs arbitrary: tw)
  case Nil
  then show ?case by simp
next
  case (Cons d dirs)
  then show ?case
    by (auto simp: HasPrefix_def split: sum.splits)
qed

lemma addFileToTar_extends:
  "addFileToTar fs tw absPath relPath = (res, tw') \<Longrightarrow> \<exists>es. tw' = tw @ es"
  by (auto simp: addFileToTar_def Let_def split: sum.splits node.splits
      dest!: WriteHeader_Inr Write_body_snoc)

lemma addFileToTar_names:
  "addFileToTar fs tw absPath relPath = (None, tw') \<Longrightarrow>
   \<exists>e. tw' = tw @ [e] \<and> hdr_Name (fst e) = relPath"
  by (auto simp: addFileToTar_def Let_def split: sum.splits node.splits
      dest!: WriteHeader_Inr Write_body_snoc)

lemma pack_files_extends:
  "pack_files fs dir tw count ps = (res, tw') \<Longrightarrow> \<exists>es. tw' = tw @ es"
proof (induction ps arbitrary: tw count)
  case Nil
  then show ?case by simp
next
  case (Cons rel rest)
  show ?case
  proof (cases "ValidateRelPath rel = None \<and> IsWithinDir dir (filepath_Join dir rel)")
    case False
    with Cons.prems show ?thesis
      by (auto simp: Let_def split: option.splits if_splits)
  next
    case True
    obtain r tw1 where a: "addFileToTar fs tw (filepath_Join dir rel) rel = (r, tw1)"
      by (cases "addFileToTar fs tw (filepath_Join dir rel) rel")
    from addFileToTar_extends[OF a] obtain es where tw1: "tw1 = tw @ es" by blast
    show ?thesis
    proof (cases r)
      case None
      with Cons.prems True a have "pack_files fs dir tw1 (Suc count) rest = (res, tw')"
        by (simp add: Let_def)
      from Cons.IH[OF this] tw1 show ?thesis by auto
    next
      case (Some err)
      with Cons.prems True a have "tw' = tw1" by (simp add: Let_def)
      with tw1 show ?thesis by blast
    qed
  qed
qed

lemma pack_files_success:
  "pack_files fs dir tw count ps = (Inr n, tw') \<Longrightarrow>
   n = count + length ps \<and> (\<forall>p \<in> set ps. ValidateRelPath p = None) \<and>
   (\<exists>es. tw' = tw @ es \<and> names es = ps)"
proof (induction ps arbitrary: tw count)
  case Nil
  then show ?case by simp
next
  case (Cons rel rest)
  from Cons.prems have v: "ValidateRelPath rel = None"
    by (auto split: option.splits)
  with Cons.prems have w: "IsWithinDir dir (filepath_Join dir rel)"
    by (auto simp: Let_def split: if_splits)
  obtain r tw1 where a: "addFileToTar fs tw (filepath_Join dir rel) rel = (r, tw1)"
    by (cases "addFileToTar fs tw (filepath_Join dir rel) rel")
  with Cons.prems v w have r: "r = None"
    and rec: "pack_files fs dir tw1 (Suc count) rest = (Inr n, tw')"
    by (auto simp: Let_def split: option.splits)
  from addFileToTar_names[OF a[unfolded r]] obtain e where
    e: "tw1 = tw @ [e]" "hdr_Name (fst e) = rel" by blast
  from Cons.IH[OF rec] obtain es where
    "n = Suc count + length rest" "\<forall>p \<in> set rest. ValidateRelPath p = None"
    "tw' = tw1 @ es" "names es = rest"
    by blast
  with e v have "n = count + length (rel # rest) \<and>
      (\<forall>p \<in> set (rel # rest). ValidateRelPath p = None) \<and>
      tw' = tw @ (e # es) \<and> names (e # es) = rel # rest"
    by (simp add: names_def)
  then show ?case by blast
qed

text \<open>Every collected directory is a non-empty sequence of names joined by slashes.\<close>

definition name_path :: "string \<Rightarrow> bool" where
  "name_path d \<longleftrightarrow> (\<exists>S. plain S \<and> S \<noteq> [] \<and> d = Join S ''/'')"

lemma collectDirs_parts_sound:
  assumes "\<forall>d \<in> set result. name_path d" and "plain (pre @ parts)"
    and "b = Join pre ''/''" and "i = length pre"
  shows "\<forall>d \<in> set (snd (collectDirs_parts i b parts (seen, result))). name_path d"
  using assms
proof (induction parts arbitrary: i b pre seen result)
  case Nil
  then show ?case by simp
next
  case (Cons part parts)
  let ?d = "(if 0 < i then b @ ''/'' else b) @ part"
  have d: "?d = Join (pre @ [part]) ''/''"
  proof (cases "pre = []")
    case True
    with Cons.prems(3,4) show ?thesis by simp
  next
    case False
    with Cons.prems(3,4) show ?thesis by (simp add: Join_snoc)
  qed
  have pl: "plain (pre @ [part])" using Cons.prems(2) by (simp add: plain_def)
  then have np: "name_path ?d"
    unfolding name_path_def d by blast
  have "\<forall>d \<in> set (snd (collectDirs_parts (Suc i) ?d parts
      (if ?d \<notin> seen then (insert ?d seen, result @ [?d]) else (seen, result)))). name_path d"
  proof (cases "?d \<notin> seen")
    case True
    have "\<forall>d \<in> set (snd (collectDirs_parts (Suc i) ?d parts (insert ?d seen, result @ [?d]))).
        name_path d"
      by (rule Cons.IH[of "result @ [?d]" "pre @ [part]"])
        (use Cons.prems np d in auto)
    with True show ?thesis by (simp del: collectDirs_parts.simps)
  next
    case False
    have "\<forall>d \<in> set (snd (collectDirs_parts (Suc i) ?d parts (seen, result))). name_path d"
      by (rule Cons.IH[of result "pre @ [part]"]) (use Cons.prems d in auto)
    with False show ?thesis by (simp del: collectDirs_parts.simps)
  qed
  then show ?case by (simp add: Let_def)
qed

lemma collectDirs_loop_sound:
  assumes "\<forall>d \<in> set (snd st). name_path d" and "\<forall>p \<in> set ps. stays p"
  shows "\<forall>d \<in> set (snd (collectDirs_loop ps st)). name_path d"
  using assms
proof (induction ps arbitrary: st)
  case Nil
  then show ?case by simp
next
  case (Cons p ps)
  from Cons.prems(2) have sp: "stays p" by simp
  from Dir_stays[OF sp] obtain S where S: "plain S" "filepath_Dir p = render False S"
    by blast
  show ?case
  proof (cases "filepath_Dir p = ''.''")
    case True
    with Cons show ?thesis by simp
  next
    case False
    with S have ne: "S \<noteq> []" by (auto simp: render_def)
    with S have dir: "filepath_Dir p = Join S ''/''" by (simp add: render_def)
    have sg: "Split (filepath_Dir p) ''/'' = S"
      using Join_plain_facts(3)[OF S(1) ne] by (simp add: dir Split_slash)
    obtain seen result where st: "st = (seen, result)" by (cases st)
    have "\<forall>d \<in> set (snd (collectDirs_parts 0 [] S (seen, result))). name_path d"
      by (rule collectDirs_parts_sound[of result "[]"]) (use Cons.prems(1) S st in auto)
    then have "\<forall>d \<in> set (snd (collectDirs_loop ps (collectDirs_parts 0 [] S st))). name_path d"
      using Cons.prems(2) unfolding st by (intro Cons.IH) auto
    with False sg show ?thesis by (simp add: Let_def)
  qed
qed

lemma collectDirs_sound:
  "\<forall>p \<in> set ps. stays p \<Longrightarrow> \<forall>d \<in> set (collectDirs ps). name_path d"
  unfolding collectDirs_def by (rule collectDirs_loop_sound) simp_all

lemma name_path_facts:
  assumes "name_path d"
  shows "d \<noteq> []" and "\<not> IsAbs (d @ ''/'')" and "''..'' \<notin> set (Split (d @ ''/'') ''/'')"
    and "Clean (d @ ''/'') = d" and "''..'' \<notin> set (Split d ''/'')" and "stays d"
proof -
  from assms obtain S where S: "plain S" "S \<noteq> []" "d = Join S ''/''"
    unfolding name_path_def by blast
  note f = Join_plain_facts[OF S(1,2)] and j = Join_plain[OF S(1,2)]
  show ne: "d \<noteq> []" using f(1) S(3) by simp
  show "\<not> IsAbs (d @ ''/'')" using f(2) S(3) ne by (simp add: IsAbs_append)
  have nd: "''..'' \<notin> set S"
    using plain_elem[OF S(1), of "''..''"] by (auto simp: name_elem_def)
  have "segs (d @ ''/'') = S @ [[]]"
    using segs_append_slash[of d "[]"] f(3) S(3) by simp
  then show "''..'' \<notin> set (Split (d @ ''/'') ''/'')"
    using nd by (simp add: Split_slash)
  show "''..'' \<notin> set (Split d ''/'')"
    using nd f(3) S(3) by (simp add: Split_slash)
  show "stays d" using j(3) S(3) by simp
  have "Clean (d @ ''/'') = render (IsAbs d) (elems d)"
    by (simp add: Clean_render[of "d @ ''/''"] IsAbs_append[OF ne] elems_trailing_slash[OF ne])
  also have "\<dots> = Clean d" by (simp add: Clean_render)
  finally show "Clean (d @ ''/'') = d" using j(2) S(3) by simp
qed

text \<open>
  C1, as amended. When \<open>PackTar\<close> returns successfully, the archive holds one directory
  header \<open>d/\<close> for every collected directory \<open>d\<close> and then one header for every listed
  path, named by the path as it was given. No name is absolute, and no name has a \<open>..\<close>
  element once cleaned; a directory header has no \<open>..\<close> element as it stands; every
  listed path has passed \<open>ValidateRelPath\<close>.
\<close>

theorem PackTar_names:
  assumes "PackTar fs dir filePaths compress = (Inr count, ar)"
  shows "names (entries ar) = map (\<lambda>d. d @ ''/'') (collectDirs filePaths) @ filePaths
       \<and> (\<forall>n \<in> set (names (entries ar)).
             \<not> IsAbs n \<and> ''..'' \<notin> set (Split (Clean n) ''/''))
       \<and> (\<forall>d \<in> set (collectDirs filePaths). ''..'' \<notin> set (Split (d @ ''/'') ''/''))
       \<and> (\<forall>p \<in> set filePaths. ValidateRelPath p = None)"
proof -
  from assms obtain tw where w: "write_dir_headers [] (collectDirs filePaths) = (None, tw)"
    and p: "pack_files fs dir tw 0 filePaths = (Inr count, entries ar)"
    by (auto simp: PackTar_def split: prod.splits option.splits)
  from write_dir_headers_names[OF w] have tw: "names tw = map (\<lambda>d. d @ ''/'') (collectDirs filePaths)"
    by auto
  from pack_files_success[OF p] obtain es where
    v: "\<forall>p \<in> set filePaths. ValidateRelPath p = None"
    and es: "entries ar = tw @ es" "names es = filePaths"
    by blast
  have n: "names (entries ar) = map (\<lambda>d. d @ ''/'') (collectDirs filePaths) @ filePaths"
    by (simp add: es tw)
  have dirs: "\<forall>d \<in> set (collectDirs filePaths). name_path d"
    by (rule collectDirs_sound) (use v valid_path(7) in blast)
  have files: "\<not> IsAbs p \<and> ''..'' \<notin> set (Split (Clean p) ''/'')" if "p \<in> set filePaths" for p
  proof -
    from that v have vp: "ValidateRelPath p = None" by blast
    note f = valid_path[OF vp]
    have "segs (Join (elems p) ''/'') = elems p"
      by (rule Join_plain_facts(3)[OF f(4,5)])
    moreover have "''..'' \<notin> set (elems p)"
      using plain_elem[OF f(4), of "''..''"] by (auto simp: name_elem_def)
    ultimately show ?thesis using f(2,6) by (simp add: Split_slash)
  qed
  have "\<forall>n \<in> set (names (entries ar)). \<not> IsAbs n \<and> ''..'' \<notin> set (Split (Clean n) ''/'')"
    unfolding n using dirs files name_path_facts(2,4,5) by auto
  moreover have "\<forall>d \<in> set (collectDirs filePaths). ''..'' \<notin> set (Split (d @ ''/'') ''/'')"
    using dirs name_path_facts(3) by blast
  ultimately show ?thesis using n v by blast
qed

theorem PackTar_names_witness:
  "fst (PackTar src_tree ''/r'' [''ok/a.txt'', ''a''] True) = Inr 2 \<and>
   names (entries (snd (PackTar src_tree ''/r'' [''ok/a.txt'', ''a''] True))) =
     [''ok/'', ''ok/a.txt'', ''a'']"
proof -
  have r: "fst (PackTar src_tree ''/r'' [''ok/a.txt'', ''a''] True) = Inr 2"
    by code_simp
  then have e: "PackTar src_tree ''/r'' [''ok/a.txt'', ''a''] True =
      (Inr 2, snd (PackTar src_tree ''/r'' [''ok/a.txt'', ''a''] True))"
    by (metis prod.collapse)
  have c: "collectDirs [''ok/a.txt'', ''a''] = [''ok'']"
    by code_simp
  from PackTar_names[OF e, THEN conjunct1] r c show ?thesis by simp
qed

text \<open>
  The claim as stated fails on a path with a \<open>..\<close> element inside: \<open>foo/../bar\<close> passes
  the validation, which looks at the cleaned form \<open>bar\<close>, and names the header as it
  stands.
\<close>

theorem PackTar_names_counterexample:
  "fst (PackTar src_tree ''/r'' [''foo/../bar''] True) = Inr 1 \<and>
   names (entries (snd (PackTar src_tree ''/r'' [''foo/../bar''] True))) = [''foo/../bar''] \<and>
   ''..'' \<in> set (Split ''foo/../bar'' ''/'')"
  by code_simp

section \<open>Directory headers and validation\<close>

lemma encodable_iff: "encodable name \<longleftrightarrow> \<not> hasNUL name"
proof -
  have "\<not> hasNUL name" if "isASCII name"
    using that unfolding isASCII_def hasNUL_def list_all_iff by blast
  then show ?thesis unfolding encodable_def by blast
qed

lemma hasNUL_slash: "hasNUL (d @ ''/'') = hasNUL d"
  by (simp add: hasNUL_def)

text \<open>The directories whose headers are written: those before the first that is refused.\<close>

definition written_dirs :: "string list \<Rightarrow> string list" where
  "written_dirs filePaths = takeWhile (\<lambda>d. \<not> hasNUL d) (collectDirs filePaths)"

lemma write_dir_headers_run:
  "\<exists>ds. write_dir_headers tw dirs =
          (if takeWhile (\<lambda>d. \<not> hasNUL d) dirs = dirs then None
           else Some ''write dir header: archive/tar: cannot encode header'', tw @ ds) \<and>
        names ds = map (\<lambda>d. d @ ''/'') (takeWhile (\<lambda>d. \<not> hasNUL d) dirs)"
proof (induction dirs arbitrary: tw)
  case Nil
  show ?case by (intro exI[of _ "[]"]) simp
next
  case (Cons d dirs)
  let ?h = "\<lparr>hdr_Typeflag = TypeDir, hdr_Name = d @ ''/'', hdr_Mode = 0x1ED, hdr_Size = 0\<rparr>"
  have enc: "encodable (hdr_Name ?h) \<longleftrightarrow> \<not> hasNUL d"
    by (simp add: encodable_iff hasNUL_slash)
  show ?case
  proof (cases "hasNUL d")
    case True
    with enc have "WriteHeader tw ?h = Inl ''archive/tar: cannot encode header''"
      by (simp only: WriteHeader_def if_False simp_thms)
    then have "write_dir_headers tw (d # dirs) =
        (Some ''write dir header: archive/tar: cannot encode header'', tw)"
      by simp
    moreover have "takeWhile (\<lambda>d. \<not> hasNUL d) (d # dirs) = []"
      using True by simp
    ultimately show ?thesis by (intro exI[of _ "[]"]) simp
  next
    case False
    with enc have wh: "WriteHeader tw ?h = Inr (tw @ [(promote ?h, [])])"
      by (simp only: WriteHeader_def if_True simp_thms)
    from Cons.IH[of "tw @ [(promote ?h, [])]"] obtain ds where
      r: "write_dir_headers (tw @ [(promote ?h, [])]) dirs =
            (if takeWhile (\<lambda>d. \<not> hasNUL d) dirs = dirs then None
             else Some ''write dir header: archive/tar: cannot encode header'',
             (tw @ [(promote ?h, [])]) @ ds)"
      and n: "names ds = map (\<lambda>d. d @ ''/'') (takeWhile (\<lambda>d. \<not> hasNUL d) dirs)"
      by blast
    have w: "write_dir_headers tw (d # dirs) = write_dir_headers (tw @ [(promote ?h, [])]) dirs"
      using wh by (simp only: write_dir_headers.simps sum.case)
    have t: "takeWhile (\<lambda>d. \<not> hasNUL d) (d # dirs) = d # takeWhile (\<lambda>d. \<not> hasNUL d) dirs"
      using False by simp
    have "write_dir_headers tw (d # dirs) =
          (if takeWhile (\<lambda>d. \<not> hasNUL d) (d # dirs) = d # dirs then None
           else Some ''write dir header: archive/tar: cannot encode header'',
           tw @ ((promote ?h, []) # ds)) \<and>
        names ((promote ?h, []) # ds) =
          map (\<lambda>d. d @ ''/'') (takeWhile (\<lambda>d. \<not> hasNUL d) (d # dirs))"
      unfolding w r t using n by (simp add: names_def)
    then show ?thesis by blast
  qed
qed

text \<open>
  C10, as amended. \<open>PackTar\<close> hands the headers of the ancestor directories of the listed
  paths to the tar writer before it validates any path, those of the paths that fail the
  validation included. The writer refuses a name with a NUL byte: whatever \<open>PackTar\<close>
  returns, the stream begins with the headers of the collected directories before the
  first such name; when there is such a name the stream holds nothing else and the result
  is a \<open>write dir header\<close> error. When the result is a path-validation error, every
  collected directory has its header in the stream, which is then not empty if there is a
  directory to collect.
\<close>

theorem PackTar_headers_before_validation:
  assumes "PackTar fs dir filePaths compress = (res, ar)"
  shows "take (length (written_dirs filePaths)) (names (entries ar)) =
           map (\<lambda>d. d @ ''/'') (written_dirs filePaths) \<and>
         (written_dirs filePaths \<noteq> collectDirs filePaths \<longrightarrow>
            names (entries ar) = map (\<lambda>d. d @ ''/'') (written_dirs filePaths) \<and>
            (\<exists>err. res = Inl err \<and> HasPrefix err ''write dir header: '')) \<and>
         ((\<exists>err. res = Inl err \<and>
                 (HasPrefix err ''invalid path '' \<or> HasPrefix err ''path escapes dir: '')) \<longrightarrow>
            written_dirs filePaths = collectDirs filePaths \<and>
            (collectDirs filePaths \<noteq> [] \<longrightarrow> entries ar \<noteq> []))"
proof -
  let ?dirs = "collectDirs filePaths" and ?ok = "written_dirs filePaths"
  let ?e = "''write dir header: archive/tar: cannot encode header''"
  from write_dir_headers_run[of "[]" ?dirs] obtain ds where
    w: "write_dir_headers [] ?dirs = (if ?ok = ?dirs then None else Some ?e, ds)"
    and n: "names ds = map (\<lambda>d. d @ ''/'') ?ok"
    unfolding written_dirs_def by auto
  have len: "length ds = length ?ok"
    using arg_cong[OF n, of length] by (simp add: names_def)
  show ?thesis
  proof (cases "?ok = ?dirs")
    case False
    with w assms have "res = Inl ?e" and "entries ar = ds"
      by (auto simp: PackTar_def)
    moreover have "HasPrefix ?e ''write dir header: ''" by (simp add: HasPrefix_def)
    moreover have "\<not> HasPrefix ?e ''invalid path ''" "\<not> HasPrefix ?e ''path escapes dir: ''"
      by (simp_all add: HasPrefix_def)
    ultimately show ?thesis using n False by auto
  next
    case True
    with w assms obtain r where "pack_files fs dir ds 0 filePaths = (r, entries ar)"
      by (auto simp: PackTar_def split: prod.splits)
    from pack_files_extends[OF this] obtain es where es: "entries ar = ds @ es" by blast
    have "take (length ?ok) (names (entries ar)) = map (\<lambda>d. d @ ''/'') ?ok"
      using len n by (simp add: es names_def)
    moreover have "?dirs \<noteq> [] \<longrightarrow> entries ar \<noteq> []"
      using len es True by auto
    ultimately show ?thesis using True by simp
  qed
qed

theorem PackTar_headers_before_validation_witness:
  "fst (PackTar src_tree ''/r'' [''ok/a.txt'', ''../x/y''] False) =
     Inl ''invalid path ../x/y: path escapes base directory: ../x/y'' \<and>
   collectDirs [''ok/a.txt'', ''../x/y''] = [''ok'', ''..'', ''../x''] \<and>
   written_dirs [''ok/a.txt'', ''../x/y''] = [''ok'', ''..'', ''../x''] \<and>
   take 3 (names (entries (snd (PackTar src_tree ''/r'' [''ok/a.txt'', ''../x/y''] False)))) =
     [''ok/'', ''../'', ''../x/''] \<and>
   entries (snd (PackTar src_tree ''/r'' [''ok/a.txt'', ''../x/y''] False)) \<noteq> []"
proof -
  let ?P = "[''ok/a.txt'', ''../x/y'']"
  let ?err = "''invalid path ../x/y: path escapes base directory: ../x/y''"
  have r: "fst (PackTar src_tree ''/r'' ?P False) = Inl ?err"
    by code_simp
  then have e: "PackTar src_tree ''/r'' ?P False =
      (Inl ?err, snd (PackTar src_tree ''/r'' ?P False))"
    by (metis prod.collapse)
  have h: "HasPrefix ?err ''invalid path ''"
    by (simp add: HasPrefix_def)
  have c: "collectDirs ?P = [''ok'', ''..'', ''../x'']"
    and d: "written_dirs ?P = [''ok'', ''..'', ''../x'']"
    by code_simp+
  from PackTar_headers_before_validation[OF e] h r c d show ?thesis
    by (simp add: numeral_3_eq_3)
qed

text \<open>
  The claim as stated fails on a path whose directory has a NUL byte in its name: the
  header of that directory is not written, and the error is not the one of the validation
  that the path would fail.
\<close>

theorem PackTar_headers_before_validation_counterexample:
  "collectDirs [[CHR ''a'', CHR 0x00, CHR ''b'', CHR ''/'', CHR ''c'']] =
     [[CHR ''a'', CHR 0x00, CHR ''b'']] \<and>
   ValidateRelPath [CHR ''a'', CHR 0x00, CHR ''b'', CHR ''/'', CHR ''c''] =
     Some ''path contains null byte'' \<and>
   isl (fst (PackTar src_tree ''/r''
     [[CHR ''a'', CHR 0x00, CHR ''b'', CHR ''/'', CHR ''c'']] False)) \<and>
   HasPrefix (projl (fst (PackTar src_tree ''/r''
     [[CHR ''a'', CHR 0x00, CHR ''b'', CHR ''/'', CHR ''c'']] False))) ''write dir header: '' \<and>
   entries (snd (PackTar src_tree ''/r''
     [[CHR ''a'', CHR 0x00, CHR ''b'', CHR ''/'', CHR ''c'']] False)) = []"
  by code_simp

section \<open>Deleting\<close>



















section \<open>Modes after unpacking\<close>

text \<open>Example trees and archives.\<close>

definition dst_tree :: filesys where
  "dst_tree =
     \<lparr>nodes = map_of [((True, [''out'']), Directory 0x1ED),
                       ((True, [''out'', ''f'']), File 0x180 ''old'')],
      umask = 0, dir_size = 4096\<rparr>"

definition reg_header :: "string \<Rightarrow> int \<Rightarrow> string \<Rightarrow> tar_entry" where
  "reg_header name mode body =
     (\<lparr>hdr_Typeflag = TypeReg, hdr_Name = name, hdr_Mode = mode,
       hdr_Size = int (length body)\<rparr>, body)"

definition tar_of :: "tar_entry list \<Rightarrow> archive" where
  "tar_of es = \<lparr>gzipped = False, entries = es, ending = None\<rparr>"

text \<open>
  C2. \<open>UnpackTar\<close> gives the mode of the header to \<open>os.OpenFile\<close> and does nothing else
  about modes, and the system uses that argument only for a file that it creates: a file
  that exists already is truncated and written, and keeps its mode. Here the extract root
  \<open>/out\<close> holds \<open>f\<close> with the mode 0600 (\<open>0x180\<close>), the stream has a regular-file header \<open>f\<close>
  with the mode 0644 (\<open>0x1A4\<close>), and the mask is zero: the file is left with the new
  content and the mode 0600, where the claim says 0644.
\<close>

theorem UnpackTar_keeps_old_mode:
  "lookup dst_tree ''/out/f'' = Inr (File 0x180 ''old'') \<and>
   fst (UnpackTar dst_tree (tar_of [reg_header ''f'' 0x1A4 ''new'']) ''/out'' False) = (1, None) \<and>
   lookup (snd (UnpackTar dst_tree (tar_of [reg_header ''f'' 0x1A4 ''new'']) ''/out'' False))
     ''/out/f'' = Inr (File 0x180 ''new'') \<and>
   (0x1A4 :: int) AND 0x1FF \<noteq> 0x180"
  by code_simp

text \<open>
  C6. For the same reason a round trip into a fresh root does not keep the permission bits
  that the mask of the unpacking process takes away. Here \<open>/r/bar\<close> has the mode 0666
  (\<open>0x1B6\<close>) and the mask is 022 (\<open>0x12\<close>): packing \<open>bar\<close> from \<open>/r\<close> and unpacking the
  stream into the empty tree under \<open>/out\<close> leaves \<open>/out/bar\<close> with the same bytes and the
  mode 0644 (\<open>0x1A4\<close>), where the claim says 0666.
\<close>

theorem round_trip_loses_mode_bits:
  "umask (fs_of []) = 0x12 \<and>
   lookup src_tree (filepath_Join ''/r'' ''bar'') = Inr (File 0x1B6 ''bar'') \<and>
   fst (PackTar src_tree ''/r'' [''bar''] True) = Inr 1 \<and>
   fst (UnpackTar (fs_of []) (snd (PackTar src_tree ''/r'' [''bar''] True)) ''/out'' True) =
     (1, None) \<and>
   lookup (snd (UnpackTar (fs_of []) (snd (PackTar src_tree ''/r'' [''bar''] True)) ''/out'' True))
     (filepath_Join ''/out'' ''bar'') = Inr (File 0x1A4 ''bar'') \<and>
   (0x1B6 :: int) AND 0x1FF \<noteq> 0x1A4 AND 0x1FF"
  by code_simp

end
